theory Spec2Isabelle
  imports Complex_Main "HOL-Library.Multiset" "HOL-Library.Sublist" "HOL-Library.AList"
    "HOL-Library.Log_Nat"
begin

section \<open>Data model\<close>

text \<open>
  The notebook \<^verbatim>\<open>DB_Screening.ipynb\<close> keeps the compound collection in a pandas
  DataFrame named \<^verbatim>\<open>database\<close>: one row per compound, an index label per row and named
  columns, of which the notebook reads \<^verbatim>\<open>Scores\<close> (a float column, kcal/mol) and
  \<^verbatim>\<open>RDKit\<close> (one descriptor vector per row) and writes \<^verbatim>\<open>Predictions\<close>.
  A row is modelled as its index label and the association list of its column values, in
  column order; a frame is the list of its rows. A float is its exact rational value or
  \<open>NaN\<close>, the value pandas gives a missing number; where the notebook's result depends on
  how a product is rounded to a double, the rounding is modelled (\<open>round_double\<close>).

  The notebook has no function of its own: every step is a call into pandas, numpy,
  scikit-learn or AutoDock Vina. Each call is modelled by what the library does with the
  arguments the notebook passes: its checks (as errors), its result, and what it leaves
  alone. What a library computes from random numbers, from a trained forest or from the
  docking physics is a parameter of the model.
\<close>

datatype pyerror =
  NameError | AttributeError | KeyError | TypeError | ValueError | IndexError | RuntimeError

datatype cell = Num rat | NaN | Vec "rat list"

record compound =
  label :: nat
  cols :: "(string \<times> cell) list"

type_synonym dataframe = "compound list"

subsection \<open>DataFrame operations the notebook uses\<close>

text \<open>\<^verbatim>\<open>df.index\<close>: the row labels in row order.\<close>

definition index_of :: "dataframe \<Rightarrow> nat list" where
  "index_of df = map label df"

text \<open>\<^verbatim>\<open>df.Scores\<close>, \<^verbatim>\<open>df.RDKit\<close>: attribute access to a column; it raises
  AttributeError when the frame has no such column.\<close>

fun getattr_col :: "dataframe \<Rightarrow> string \<Rightarrow> pyerror + cell list" where
  "getattr_col [] c = Inr []"
| "getattr_col (r # rs) c =
     (case map_of (cols r) c of
        None \<Rightarrow> Inl AttributeError
      | Some x \<Rightarrow> (case getattr_col rs c of Inl e \<Rightarrow> Inl e | Inr xs \<Rightarrow> Inr (x # xs)))"

text \<open>\<^verbatim>\<open>df['Predictions']\<close> and \<^verbatim>\<open>by=['Predictions']\<close>: access by column name; a
  missing column is a KeyError.\<close>

definition getitem_col :: "dataframe \<Rightarrow> string \<Rightarrow> pyerror + cell list" where
  "getitem_col df c = (case getattr_col df c of Inl e \<Rightarrow> Inl KeyError | Inr xs \<Rightarrow> Inr xs)"

text \<open>\<^verbatim>\<open>column > 0\<close>: the elementwise comparison of a column with a number. The comparison
  is a parameter \<open>p\<close>; the notebook's is \<open>\<lambda>s. s > 0\<close>. Every comparison of NaN with a
  number is False. Comparing a vector-valued cell with a number raises TypeError.\<close>

fun compare_col :: "(rat \<Rightarrow> bool) \<Rightarrow> cell list \<Rightarrow> pyerror + bool list" where
  "compare_col p [] = Inr []"
| "compare_col p (Num v # cs) =
     (case compare_col p cs of Inl e \<Rightarrow> Inl e | Inr bs \<Rightarrow> Inr (p v # bs))"
| "compare_col p (NaN # cs) =
     (case compare_col p cs of Inl e \<Rightarrow> Inl e | Inr bs \<Rightarrow> Inr (False # bs))"
| "compare_col p (Vec v # cs) = Inl TypeError"

text \<open>The values of a float column, \<open>None\<close> for NaN. The model covers float sort keys
  only: a vector-valued key column is reported as TypeError.\<close>

fun as_floats :: "cell list \<Rightarrow> pyerror + rat option list" where
  "as_floats [] = Inr []"
| "as_floats (Num v # cs) =
     (case as_floats cs of Inl e \<Rightarrow> Inl e | Inr vs \<Rightarrow> Inr (Some v # vs))"
| "as_floats (NaN # cs) =
     (case as_floats cs of Inl e \<Rightarrow> Inl e | Inr vs \<Rightarrow> Inr (None # vs))"
| "as_floats (Vec v # cs) = Inl TypeError"

text \<open>\<^verbatim>\<open>df[mask]\<close>: the rows at which the boolean mask is True, in row order.\<close>

definition getitem_mask :: "dataframe \<Rightarrow> bool list \<Rightarrow> dataframe" where
  "getitem_mask df msk = map fst (filter snd (zip df msk))"

text \<open>\<^verbatim>\<open>df.drop(labels)\<close>: a new frame without the rows whose index label is among
  \<open>labels\<close>; the rows kept stay in row order. A label that is not in the index raises
  KeyError.\<close>

definition drop_labels :: "dataframe \<Rightarrow> nat list \<Rightarrow> pyerror + dataframe" where
  "drop_labels df ls =
     (if set ls \<subseteq> set (index_of df)
      then Inr (filter (\<lambda>r. label r \<notin> set ls) df)
      else Inl KeyError)"

text \<open>\<^verbatim>\<open>take\<close> (pandas, numpy) and scikit-learn's \<^verbatim>\<open>_safe_indexing\<close> on a list: the
  elements at the given positions, in the order of the positions; a position outside the
  list raises IndexError.\<close>

definition take_idx :: "'a list \<Rightarrow> nat list \<Rightarrow> pyerror + 'a list" where
  "take_idx xs idx =
     (if list_all (\<lambda>i. i < length xs) idx then Inr (map (\<lambda>i. xs ! i) idx) else Inl IndexError)"

text \<open>\<^verbatim>\<open>ignore_index=True\<close>: the result is relabelled 0, 1, 2, ...\<close>

definition reset_index :: "dataframe \<Rightarrow> dataframe" where
  "reset_index df = map (\<lambda>(i, r). r\<lparr>label := i\<rparr>) (zip [0 ..< length df] df)"

text \<open>\<^verbatim>\<open>df[c] = values\<close>: writes a column in place. An existing column of that name is
  overwritten where it stands, a new one is appended as the last column; a value list of
  another length than the frame raises ValueError.\<close>

definition setitem_col :: "dataframe \<Rightarrow> string \<Rightarrow> rat list \<Rightarrow> pyerror + dataframe" where
  "setitem_col df c vals =
     (if length vals \<noteq> length df then Inl ValueError
      else Inr (map (\<lambda>(r, v). r\<lparr>cols := AList.update c (Num v) (cols r)\<rparr>) (zip df vals)))"

section \<open>Database filter\<close>

text \<open>
  \<^verbatim>\<open>database = database.drop(database[ database.Scores > 0 ].index)\<close>

  \<open>drop_rows_where bad\<close> is the right-hand side with the comparison \<open>bad\<close> in the place of
  \<^verbatim>\<open>> 0\<close>; \<open>drop_positive\<close> is the notebook's own instance.
\<close>

definition drop_rows_where :: "(rat \<Rightarrow> bool) \<Rightarrow> dataframe \<Rightarrow> pyerror + dataframe" where
  "drop_rows_where bad df =
     (case getattr_col df ''Scores'' of
        Inl e \<Rightarrow> Inl e
      | Inr cs \<Rightarrow>
          (case compare_col bad cs of
             Inl e \<Rightarrow> Inl e
           | Inr msk \<Rightarrow> drop_labels df (index_of (getitem_mask df msk))))"

definition drop_positive :: "dataframe \<Rightarrow> pyerror + dataframe" where
  "drop_positive = drop_rows_where (\<lambda>s. s > 0)"

text \<open>
  The statement as a whole, on the notebook's state: the global names (each bound to an
  object), the objects, and the next free object identity. \<^verbatim>\<open>drop\<close> builds a new
  frame object; the assignment then binds the name \<^verbatim>\<open>database\<close> to it.
\<close>

record session =
  globals :: "string \<Rightarrow> nat option"
  heap :: "nat \<Rightarrow> dataframe option"
  next_id :: nat

definition cell_filter :: "session \<Rightarrow> pyerror + session" where
  "cell_filter s =
     (case globals s ''database'' of
        None \<Rightarrow> Inl NameError
      | Some a \<Rightarrow>
          (case heap s a of
             None \<Rightarrow> Inl NameError
           | Some df \<Rightarrow>
               (case drop_positive df of
                  Inl e \<Rightarrow> Inl e
                | Inr out \<Rightarrow>
                    Inr (s\<lparr>globals := (globals s)(''database'' \<mapsto> next_id s),
                           heap := (heap s)(next_id s \<mapsto> out),
                           next_id := Suc (next_id s)\<rparr>))))"

text \<open>Every object of a session has an identity below the next free one.\<close>

definition session_ok :: "session \<Rightarrow> bool" where
  "session_ok s = (\<forall>a. a \<ge> next_id s \<longrightarrow> heap s a = None)"

section \<open>Random sample\<close>

text \<open>
  \<^verbatim>\<open>random_sel = database.sample(N_SAMPLE, random_state=42, ignore_index=True)\<close>

  numpy's generator is a parameter: a type \<open>'g\<close> of generator states, the state a seed
  gives (\<^verbatim>\<open>RandomState(seed)\<close>) and the draw of a permutation of \<open>0 ..< n\<close>, which
  returns the next state. pandas turns an integer \<^verbatim>\<open>random_state\<close> into a generator of
  its own and uses numpy's global generator when there is none; it calls
  \<^verbatim>\<open>choice(len(df), size=n, replace=False)\<close>, which is
  \<^verbatim>\<open>permutation(len(df))[:n]\<close> after two checks.
\<close>

record 'g bitgen =
  RandomState :: "nat \<Rightarrow> 'g"
  permutation :: "'g \<Rightarrow> nat \<Rightarrow> nat list \<times> 'g"

definition choice :: "'g bitgen \<Rightarrow> 'g \<Rightarrow> nat \<Rightarrow> nat \<Rightarrow> pyerror + (nat list \<times> 'g)" where
  "choice R g pop_size n =
     (if pop_size = 0 \<and> n \<noteq> 0 then Inl ValueError
      else if n > pop_size then Inl ValueError
      else (case permutation R g pop_size of (idx, g') \<Rightarrow> Inr (take n idx, g')))"

definition sample_df ::
  "'g bitgen \<Rightarrow> 'g \<Rightarrow> dataframe \<Rightarrow> nat \<Rightarrow> nat option \<Rightarrow> pyerror + (dataframe \<times> 'g)" where
  "sample_df R np_random df n random_state =
     (case choice R (case random_state of None \<Rightarrow> np_random | Some seed \<Rightarrow> RandomState R seed)
             (length df) n of
        Inl e \<Rightarrow> Inl e
      | Inr (sampled_indices, rs) \<Rightarrow>
          (case take_idx df sampled_indices of
             Inl e \<Rightarrow> Inl e
           | Inr result \<Rightarrow>
               Inr (reset_index result,
                    (case random_state of None \<Rightarrow> rs | Some seed \<Rightarrow> np_random))))"

text \<open>The notebook's call: the sample and numpy's global generator afterwards.\<close>

definition random_sel :: "'g bitgen \<Rightarrow> 'g \<Rightarrow> dataframe \<Rightarrow> nat \<Rightarrow> pyerror + (dataframe \<times> 'g)" where
  "random_sel R np_random database N_SAMPLE = sample_df R np_random database N_SAMPLE (Some 42)"

text \<open>What numpy promises of a permutation draw: each of \<open>0 ..< n\<close> once.\<close>

definition is_permutation_of_range :: "nat list \<Rightarrow> nat \<Rightarrow> bool" where
  "is_permutation_of_range p n = (sort p = [0 ..< n])"

section \<open>Labels for the classifier\<close>

text \<open>
  \<^verbatim>\<open>threshold = np.percentile(y,30)\<close>
  \<^verbatim>\<open>y_cls = [ score < threshold for score in y]\<close>

  numpy's default method is linear interpolation between the two order statistics around
  the virtual index \<open>(n - 1) * q / 100\<close>; at or beyond the last index it is the largest
  value. A percentage outside 0..100 raises ValueError. An empty list has no percentile
  (an IndexError or a NaN, by numpy version: no label is produced either way).
\<close>

definition percentile :: "rat list \<Rightarrow> rat \<Rightarrow> pyerror + rat" where
  "percentile a q =
     (if q < 0 \<or> 100 < q then Inl ValueError
      else if a = [] then Inl IndexError
      else
        (let arr = sort a;
             values_count = length arr;
             virtual_index = of_nat (values_count - 1) * (q / 100);
             previous_index = nat \<lfloor>virtual_index\<rfloor>;
             gamma = virtual_index - of_nat previous_index;
             above_bounds = (virtual_index \<ge> of_nat (values_count - 1));
             previous = (if above_bounds then arr ! (values_count - 1) else arr ! previous_index);
             next = (if above_bounds then arr ! (values_count - 1) else arr ! (previous_index + 1))
         in Inr (previous + (next - previous) * gamma)))"

definition make_categorical :: "rat list \<Rightarrow> pyerror + (rat \<times> bool list)" where
  "make_categorical y =
     (case percentile y 30 of
        Inl e \<Rightarrow> Inl e
      | Inr threshold \<Rightarrow> Inr (threshold, map (\<lambda>score. score < threshold) y))"

section \<open>Train/test split\<close>

text \<open>
  \<^verbatim>\<open>train_test_split(X, y, test_size = 0.30, random_state=42, shuffle=True)\<close>
  \<^verbatim>\<open>train_test_split(X, y_cls, test_size = 0.20, random_state=42, shuffle=True, stratify=y_cls)\<close>

  scikit-learn first fixes the two sizes: the test set gets
  \<^verbatim>\<open>ceil(test_size * n_samples)\<close> samples and the training set the rest; a fraction
  outside (0,1) and an empty training set are ValueErrors. The fraction and the product
  are doubles, and the ceiling is taken of the rounded product: 0.28 of 25 samples is
  7.000000000000001 and gives 8 test samples.

  \<open>round_double\<close> is the double nearest to a rational (ties to the even significand,
  53 significant bits, gradual underflow below \<open>2 ^ -1022\<close>); the exponent has no upper
  bound here: the products rounded are below the number of samples, and a feature beyond
  the doubles is beyond float32 as well.
\<close>

definition pow2 :: "int \<Rightarrow> rat" where
  "pow2 d = (if 0 \<le> d then 2 ^ nat d else 1 / 2 ^ nat (- d))"

text \<open>\<open>\<lfloor>log\<^sub>2 x\<rfloor>\<close> for a positive rational, from the bit lengths of its numerator and
  denominator.\<close>

definition binary_exponent :: "rat \<Rightarrow> int" where
  "binary_exponent x =
     (case quotient_of x of
        (a, b) \<Rightarrow> (let d = bitlen a - bitlen b in if pow2 d \<le> x then d else d - 1))"

definition round_half_even :: "rat \<Rightarrow> int" where
  "round_half_even q =
     (let f = \<lfloor>q\<rfloor>; d = q - of_int f
      in if d < 1 / 2 then f else if 1 / 2 < d then f + 1 else if even f then f else f + 1)"

definition round_double :: "rat \<Rightarrow> rat" where
  "round_double x =
     (if x = 0 then 0
      else
        (let e = max (binary_exponent \<bar>x\<bar>) (- 1022);
             ulp = pow2 (e - 52)
         in sgn x * of_int (round_half_even (\<bar>x\<bar> / ulp)) * ulp))"

text \<open>\<open>test_size\<close> is the fraction as the call writes it (0.30, 0.20); Python reads it as
  the nearest double.\<close>

definition n_test_of :: "rat \<Rightarrow> nat \<Rightarrow> nat" where
  "n_test_of test_size n_samples =
     nat \<lceil>round_double (round_double test_size * of_nat n_samples)\<rceil>"

definition validate_shuffle_split :: "nat \<Rightarrow> rat \<Rightarrow> pyerror + (nat \<times> nat)" where
  "validate_shuffle_split n_samples test_size =
     (if round_double test_size \<le> 0 \<or> round_double test_size \<ge> 1 then Inl ValueError
      else
        (let n_test = n_test_of test_size n_samples;
             n_train = n_samples - n_test
         in if n_train = 0 then Inl ValueError else Inr (n_train, n_test)))"

text \<open>The sizes pass the validation.\<close>

definition sizes_ok :: "rat \<Rightarrow> nat \<Rightarrow> bool" where
  "sizes_ok test_size n_samples =
     (0 < round_double test_size \<and> round_double test_size < 1 \<and>
      n_test_of test_size n_samples < n_samples)"

text \<open>
  The generator enters as \<open>shuffle k xs\<close>: what its \<open>k\<close>-th permutation draw of the call
  makes of the array \<open>xs\<close> (\<^verbatim>\<open>rng.permutation(n)\<close> is the draw on \<open>0 ..< n\<close>).
  Without stratification the test positions are the first \<open>n_test\<close> of one permutation
  and the training positions the next \<open>n_train\<close>.
\<close>

definition shuffle_split ::
  "(nat \<Rightarrow> nat list \<Rightarrow> nat list) \<Rightarrow> nat \<Rightarrow> rat \<Rightarrow> pyerror + (nat list \<times> nat list)" where
  "shuffle_split shuffle n_samples test_size =
     (case validate_shuffle_split n_samples test_size of
        Inl e \<Rightarrow> Inl e
      | Inr (n_train, n_test) \<Rightarrow>
          (let perm = shuffle 0 [0 ..< n_samples]
           in Inr (take n_train (drop n_test perm), take n_test perm)))"

text \<open>
  With stratification each class is permuted on its own and cut into its training and
  test share; \<open>n_i\<close> and \<open>t_i\<close>, the shares per class, come from scikit-learn's
  \<^verbatim>\<open>_approximate_mode\<close>, which breaks ties with the generator and is a parameter here
  (\<open>approximate_mode k counts n_draws\<close> for its \<open>k\<close>-th call). The positions of a class are
  read with \<^verbatim>\<open>take(permutation, mode="clip")\<close>.
\<close>

fun per_class ::
  "(nat \<Rightarrow> nat list \<Rightarrow> nat list) \<Rightarrow> nat \<Rightarrow> nat list list \<Rightarrow> nat list \<Rightarrow> nat list
     \<Rightarrow> nat list \<times> nat list" where
  "per_class shuffle k (ci # cls) (n # ns) (t # ts) =
     (let perm = shuffle k [0 ..< length ci];
          perm_indices_class_i = map (\<lambda>j. ci ! min j (length ci - 1)) perm
      in (case per_class shuffle (Suc k) cls ns ts of
            (train, test) \<Rightarrow>
              (take n perm_indices_class_i @ train,
               take t (drop n perm_indices_class_i) @ test)))"
| "per_class shuffle k cls ns ts = ([], [])"

definition stratified_shuffle_split ::
  "(nat \<Rightarrow> nat list \<Rightarrow> nat list) \<Rightarrow> (nat \<Rightarrow> nat list \<Rightarrow> nat \<Rightarrow> nat list) \<Rightarrow> bool list \<Rightarrow> rat
     \<Rightarrow> pyerror + (nat list \<times> nat list)" where
  "stratified_shuffle_split shuffle approximate_mode y test_size =
     (case validate_shuffle_split (length y) test_size of
        Inl e \<Rightarrow> Inl e
      | Inr (n_train, n_test) \<Rightarrow>
          (let classes = sort (remdups y);
               n_classes = length classes;
               class_counts = map (\<lambda>c. count_list y c) classes
           in if list_ex (\<lambda>c. c < 2) class_counts then Inl ValueError
              else if n_train < n_classes then Inl ValueError
              else if n_test < n_classes then Inl ValueError
              else
                (let class_indices = map (\<lambda>c. filter (\<lambda>i. y ! i = c) [0 ..< length y]) classes;
                     n_i = approximate_mode 0 class_counts n_train;
                     class_counts_remaining = map (\<lambda>(c, n). c - n) (zip class_counts n_i);
                     t_i = approximate_mode 1 class_counts_remaining n_test
                 in (case per_class shuffle 0 class_indices n_i t_i of
                       (train, test) \<Rightarrow>
                         Inr (shuffle n_classes train, shuffle (Suc n_classes) test)))))"

text \<open>\<^verbatim>\<open>train_test_split\<close> itself: arrays of different lengths, the labels to stratify
  on among them, are a ValueError; \<open>stratify\<close> is the list of labels to stratify on, if
  any. The four results are the two arrays read at the training and at the test
  positions.\<close>

definition split_positions ::
  "(nat \<Rightarrow> nat list \<Rightarrow> nat list) \<Rightarrow> (nat \<Rightarrow> nat list \<Rightarrow> nat \<Rightarrow> nat list) \<Rightarrow> nat \<Rightarrow> rat
     \<Rightarrow> bool list option \<Rightarrow> pyerror + (nat list \<times> nat list)" where
  "split_positions shuffle approximate_mode n_samples test_size stratify =
     (case stratify of
        None \<Rightarrow> shuffle_split shuffle n_samples test_size
      | Some labels \<Rightarrow>
          if length labels \<noteq> n_samples then Inl ValueError
          else stratified_shuffle_split shuffle approximate_mode labels test_size)"

definition train_test_split ::
  "(nat \<Rightarrow> nat list \<Rightarrow> nat list) \<Rightarrow> (nat \<Rightarrow> nat list \<Rightarrow> nat \<Rightarrow> nat list) \<Rightarrow> 'a list \<Rightarrow> 'b list
     \<Rightarrow> rat \<Rightarrow> bool list option \<Rightarrow> pyerror + ('a list \<times> 'a list \<times> 'b list \<times> 'b list)" where
  "train_test_split shuffle approximate_mode X y test_size stratify =
     (if length X \<noteq> length y then Inl ValueError
      else
        (case split_positions shuffle approximate_mode (length X) test_size stratify of
           Inl e \<Rightarrow> Inl e
         | Inr (train, test) \<Rightarrow>
             (case (take_idx X train, take_idx X test, take_idx y train, take_idx y test) of
                (Inr X_train, Inr X_test, Inr y_train, Inr y_test) \<Rightarrow>
                  Inr (X_train, X_test, y_train, y_test)
              | _ \<Rightarrow> Inl IndexError)))"

text \<open>The contracts of the two parameters: a permutation draw rearranges its array, and
  the approximate mode of a draw of \<open>n_draws\<close> from classes of the given sizes takes no
  more from a class than it has and \<open>n_draws\<close> in all.\<close>

definition shuffle_ok :: "(nat \<Rightarrow> nat list \<Rightarrow> nat list) \<Rightarrow> bool" where
  "shuffle_ok shuffle = (\<forall>k xs. mset (shuffle k xs) = mset xs)"

definition mode_ok :: "nat list \<Rightarrow> nat \<Rightarrow> nat list \<Rightarrow> bool" where
  "mode_ok counts n_draws ns =
     (length ns = length counts \<and> sum_list ns = n_draws \<and>
      list_all (\<lambda>(n, c). n \<le> c) (zip ns counts))"

text \<open>The class sizes of a list of labels, in the order of the sorted classes, and the
  contract of the two calls of \<^verbatim>\<open>_approximate_mode\<close> in a stratified split of these
  labels into \<open>n_train\<close> and \<open>n_test\<close>.\<close>

definition class_counts_of :: "bool list \<Rightarrow> nat list" where
  "class_counts_of y = map (\<lambda>c. count_list y c) (sort (remdups y))"

definition strata_ok ::
  "(nat \<Rightarrow> nat list \<Rightarrow> nat \<Rightarrow> nat list) \<Rightarrow> bool list \<Rightarrow> nat \<Rightarrow> nat \<Rightarrow> bool" where
  "strata_ok approximate_mode y n_train n_test =
     (mode_ok (class_counts_of y) n_train (approximate_mode 0 (class_counts_of y) n_train) \<and>
      mode_ok
        (map (\<lambda>(c, n). c - n)
           (zip (class_counts_of y) (approximate_mode 0 (class_counts_of y) n_train)))
        n_test
        (approximate_mode 1
           (map (\<lambda>(c, n). c - n)
              (zip (class_counts_of y) (approximate_mode 0 (class_counts_of y) n_train)))
           n_test))"

section \<open>Regression model and scorer\<close>

text \<open>
  \<^verbatim>\<open>predicted_scores = reg.predict(database.RDKit.values.tolist())\<close>
  \<^verbatim>\<open>database['Predictions'] = predicted_scores\<close>

  A fitted forest is a parameter: the number of features it was fitted on and the value
  it predicts for one feature vector. \<^verbatim>\<open>predict\<close> validates its input before it
  predicts: the input must be a two-dimensional array (so not an empty list, not a list of
  numbers, not rows of different lengths) with at least one row and with the features
  the model was fitted on; its values are cast to float32 and must be finite there, so a
  value that float32 rounds to infinity is refused. Anything else is a ValueError.
\<close>

record regressor =
  n_features_in :: nat
  predict_one :: "rat list \<Rightarrow> rat"

text \<open>The largest float32 is \<open>2 ^ 128 - 2 ^ 104\<close>; from half a unit in the last place
  above it the cast of a double gives infinity.\<close>

definition float32_overflows :: "rat \<Rightarrow> bool" where
  "float32_overflows x = (2 ^ 128 - 2 ^ 103 \<le> \<bar>round_double x\<bar>)"

fun as_2d :: "cell list \<Rightarrow> pyerror + rat list list" where
  "as_2d [] = Inl ValueError"
| "as_2d [Vec v] = Inr [v]"
| "as_2d (Vec v # c # cs) =
     (case as_2d (c # cs) of
        Inl e \<Rightarrow> Inl e
      | Inr rows \<Rightarrow> if length v = length (hd rows) then Inr (v # rows) else Inl ValueError)"
| "as_2d (Num v # cs) = Inl ValueError"
| "as_2d (NaN # cs) = Inl ValueError"

definition check_array :: "cell list \<Rightarrow> pyerror + rat list list" where
  "check_array X =
     (case as_2d X of
        Inl e \<Rightarrow> Inl e
      | Inr rows \<Rightarrow>
          if list_ex (\<lambda>row. list_ex float32_overflows row) rows then Inl ValueError
          else Inr rows)"

definition predict :: "regressor \<Rightarrow> cell list \<Rightarrow> pyerror + rat list" where
  "predict reg X =
     (case check_array X of
        Inl e \<Rightarrow> Inl e
      | Inr rows \<Rightarrow>
          if length (hd rows) \<noteq> n_features_in reg then Inl ValueError
          else Inr (map (predict_one reg) rows))"

definition scorer :: "regressor \<Rightarrow> dataframe \<Rightarrow> pyerror + dataframe" where
  "scorer reg database =
     (case getattr_col database ''RDKit'' of
        Inl e \<Rightarrow> Inl e
      | Inr X \<Rightarrow>
          (case predict reg X of
             Inl e \<Rightarrow> Inl e
           | Inr predicted_scores \<Rightarrow> setitem_col database ''Predictions'' predicted_scores))"

section \<open>Selection of the top molecules\<close>

text \<open>
  \<^verbatim>\<open>biased_sel = database.sort_values(by=['Predictions'], ascending=True)[:N_SAMPLE]\<close>

  With one key and no \<^verbatim>\<open>kind\<close>, pandas sorts with numpy's \<^verbatim>\<open>argsort\<close> of kind
  \<^verbatim>\<open>quicksort\<close> on the keys that are numbers, puts the positions of the NaN keys after
  them in their original order, and reads the rows at these positions. numpy's quicksort
  orders the positions by key and promises nothing of the order of equal keys (of the
  sort kinds only \<^verbatim>\<open>mergesort\<close> and \<^verbatim>\<open>stable\<close> do). That order is the parameter
  \<open>tiebreak\<close>: for an array \<open>a\<close>, positions with equal keys come in the order of
  \<open>tiebreak a\<close>.
\<close>

definition argsort :: "(rat list \<Rightarrow> nat \<Rightarrow> nat) \<Rightarrow> rat list \<Rightarrow> nat list" where
  "argsort tiebreak a = sort_key (\<lambda>i. a ! i) (sort_key (tiebreak a) [0 ..< length a])"

definition nargsort :: "(rat list \<Rightarrow> nat \<Rightarrow> nat) \<Rightarrow> rat option list \<Rightarrow> nat list" where
  "nargsort tiebreak items =
     (let idx = [0 ..< length items];
          non_nan_idx = filter (\<lambda>i. items ! i \<noteq> None) idx;
          nan_idx = filter (\<lambda>i. items ! i = None) idx;
          non_nans = map (\<lambda>i. the (items ! i)) non_nan_idx
      in map (\<lambda>j. non_nan_idx ! j) (argsort tiebreak non_nans) @ nan_idx)"

definition sort_values ::
  "(rat list \<Rightarrow> nat \<Rightarrow> nat) \<Rightarrow> dataframe \<Rightarrow> string \<Rightarrow> pyerror + dataframe" where
  "sort_values tiebreak df by =
     (case getitem_col df by of
        Inl e \<Rightarrow> Inl e
      | Inr ks \<Rightarrow>
          (case as_floats ks of
             Inl e \<Rightarrow> Inl e
           | Inr items \<Rightarrow> take_idx df (nargsort tiebreak items)))"

definition biased_sel ::
  "(rat list \<Rightarrow> nat \<Rightarrow> nat) \<Rightarrow> dataframe \<Rightarrow> nat \<Rightarrow> pyerror + dataframe" where
  "biased_sel tiebreak database N_SAMPLE =
     (case sort_values tiebreak database ''Predictions'' of
        Inl e \<Rightarrow> Inl e
      | Inr sorted_db \<Rightarrow> Inr (take N_SAMPLE sorted_db))"

text \<open>An ascending permutation of the positions of an array of keys.\<close>

definition argsort_ok :: "rat list \<Rightarrow> nat list \<Rightarrow> bool" where
  "argsort_ok keys p = (is_permutation_of_range p (length keys) \<and> sorted (map (\<lambda>i. keys ! i) p))"

text \<open>The predicted score of a row (\<open>None\<close> for NaN), the predicted scores of a frame in
  row order, and the numbers among a list of floats.\<close>

definition pred_item :: "compound \<Rightarrow> rat option" where
  "pred_item r = (case map_of (cols r) ''Predictions'' of Some (Num v) \<Rightarrow> Some v | _ \<Rightarrow> None)"

definition predictions :: "dataframe \<Rightarrow> pyerror + rat option list" where
  "predictions df = (case getitem_col df ''Predictions'' of Inl e \<Rightarrow> Inl e | Inr ks \<Rightarrow> as_floats ks)"

definition numbers_of :: "rat option list \<Rightarrow> rat list" where
  "numbers_of items = map the (filter (\<lambda>x. x \<noteq> None) items)"

text \<open>The selection as the specification words it: sort by predicted score with ties in
  their original order (a stable sort, the rows without a predicted score last), then
  keep the first \<open>K\<close> records.\<close>

definition prediction_of :: "compound \<Rightarrow> rat" where
  "prediction_of r = (case pred_item r of Some v \<Rightarrow> v | None \<Rightarrow> 0)"

definition stable_selection :: "dataframe \<Rightarrow> nat \<Rightarrow> dataframe" where
  "stable_selection df K =
     take K (sort_key prediction_of (filter (\<lambda>r. pred_item r \<noteq> None) df) @
             filter (\<lambda>r. pred_item r = None) df)"

section \<open>Docking loop\<close>

text \<open>
  \<^verbatim>\<open>
  docking_scores = []
  N_TO_DOCK = 1 # Max 10, which is what we have.
  for ligand in ligands[:N_TO_DOCK]:
      print("Docking ligand: ", ligand, flush=True)
      docker.set_ligand_from_file(ligand)
      docker.compute_vina_maps(center, size)
      docker.dock(exhaustiveness=EXHAUSTIVENESS, n_poses=N_POSES)
      print("Docking Scores:\n  [ total  inter  intra  torns -ibest]", )
      for pose, energy in enumerate(docker.energies(n_poses=N_POSES)):
          print(pose, energy)
      docking_scores.append(docker.energies(n_poses=1)[0][0])
      print("*"*80)
  \<close>

  The engine is a parameter \<open>dock\<close>: for a ligand file, either the exception one of the
  three docker calls raises or the energy rows of the poses found, best first.
  \<^verbatim>\<open>energies(n_poses=k)\<close> is the first \<open>k\<close> of them. The loop has no exception
  handler: an exception ends it, and leaves the scores appended and the lines printed so
  far. The state is the list \<^verbatim>\<open>docking_scores\<close> and the printed output.
\<close>

datatype printed =
  Docking_ligand string | Scores_header | Pose_line nat "rat list" | Stars

record dock_state =
  docking_scores :: "rat list"
  stdout :: "printed list"

definition N_POSES :: nat where
  "N_POSES = 5"

text \<open>\<^verbatim>\<open>docker.energies(n_poses=1)[0][0]\<close>: the total energy of the best pose; IndexError when
  there is no pose.\<close>

definition best_total :: "rat list list \<Rightarrow> pyerror + rat" where
  "best_total poses =
     (case take 1 poses of
        [] \<Rightarrow> Inl IndexError
      | energy # rest \<Rightarrow> (case energy of [] \<Rightarrow> Inl IndexError | e_total # others \<Rightarrow> Inr e_total))"

fun docking_loop ::
  "(string \<Rightarrow> pyerror + rat list list) \<Rightarrow> string list \<Rightarrow> dock_state
     \<Rightarrow> dock_state \<times> pyerror option" where
  "docking_loop dock [] st = (st, None)"
| "docking_loop dock (ligand # rest) st =
     (let st1 = st\<lparr>stdout := stdout st @ [Docking_ligand ligand]\<rparr>
      in case dock ligand of
           Inl e \<Rightarrow> (st1, Some e)
         | Inr poses \<Rightarrow>
             (let shown = take N_POSES poses;
                  st2 = st1\<lparr>stdout := stdout st1 @ Scores_header #
                           map (\<lambda>(pose, energy). Pose_line pose energy)
                             (zip [0 ..< length shown] shown)\<rparr>
              in case best_total poses of
                   Inl e \<Rightarrow> (st2, Some e)
                 | Inr score \<Rightarrow>
                     docking_loop dock rest
                       (st2\<lparr>docking_scores := docking_scores st2 @ [score],
                            stdout := stdout st2 @ [Stars]\<rparr>)))"

definition cell_docking ::
  "(string \<Rightarrow> pyerror + rat list list) \<Rightarrow> string list \<Rightarrow> nat \<Rightarrow> dock_state \<times> pyerror option" where
  "cell_docking dock ligands N_TO_DOCK =
     docking_loop dock (take N_TO_DOCK ligands) \<lparr>docking_scores = [], stdout = []\<rparr>"

text \<open>What docking one ligand comes to: its score or its exception; and the ligands the
  loop announced, read off the output.\<close>

definition outcome :: "(string \<Rightarrow> pyerror + rat list list) \<Rightarrow> string \<Rightarrow> pyerror + rat" where
  "outcome dock ligand = (case dock ligand of Inl e \<Rightarrow> Inl e | Inr poses \<Rightarrow> best_total poses)"

fun announced :: "printed list \<Rightarrow> string list" where
  "announced [] = []"
| "announced (Docking_ligand l # ps) = l # announced ps"
| "announced (p # ps) = announced ps"

section \<open>Scenario data and notions used in the statements\<close>

text \<open>The score of a row, where it has a numeric one, and whether the comparison \<open>bad\<close>
  holds of it.\<close>

definition score_of :: "compound \<Rightarrow> rat option" where
  "score_of r = (case map_of (cols r) ''Scores'' of Some (Num v) \<Rightarrow> Some v | _ \<Rightarrow> None)"

definition badrow :: "(rat \<Rightarrow> bool) \<Rightarrow> compound \<Rightarrow> bool" where
  "badrow bad r = (case score_of r of Some v \<Rightarrow> bad v | None \<Rightarrow> False)"

definition mk_row :: "nat \<Rightarrow> rat \<Rightarrow> compound" where
  "mk_row l s = \<lparr>label = l, cols = [(''RDKit'', Vec [of_nat l]), (''Scores'', Num s)]\<rparr>"

definition scenario_db :: dataframe where
  "scenario_db = map (\<lambda>(l, s). mk_row l s)
     (zip [0 ..< 10] [-9, -8, -7, -6, -5, -4, -3, -2, -1, 1])"

definition scenario_filtered :: dataframe where
  "scenario_filtered = map (\<lambda>(l, s). mk_row l s)
     (zip [0 ..< 9] [-9, -8, -7, -6, -5, -4, -3, -2, -1])"

text \<open>The ten scores of the labelling scenario, and eleven scores whose 30th percentile is
  one of them.\<close>

definition scores10 :: "rat list" where
  "scores10 = [-10, -9, -8, -7, -6, -5, -4, -3, -2, -1]"

definition scores11 :: "rat list" where
  "scores11 = [0, 1, 2, 3, 4, 5, 6, 7, 8, 9, 10]"

text \<open>The feature vector of a cell, a small fitted model, and an engine that fails on one
  ligand of three.\<close>

fun vec_of :: "cell \<Rightarrow> rat list" where
  "vec_of (Vec v) = v"
| "vec_of (Num x) = []"
| "vec_of NaN = []"

definition toy_reg :: regressor where
  "toy_reg = \<lparr>n_features_in = 1, predict_one = (\<lambda>v. sum_list v - 9)\<rparr>"

text \<open>The descriptor vector of a row, and the filtered scenario database with the
  predictions of that model, which are its scores.\<close>

definition fingerprint_of :: "compound \<Rightarrow> rat list" where
  "fingerprint_of r = (case map_of (cols r) ''RDKit'' of Some (Vec v) \<Rightarrow> v | _ \<Rightarrow> [])"

definition scenario_scored :: dataframe where
  "scenario_scored = map (\<lambda>(l, s).
       \<lparr>label = l,
        cols = [(''RDKit'', Vec [of_nat l]), (''Scores'', Num s), (''Predictions'', Num s)]\<rparr>)
     (zip [0 ..< 9] [-9, -8, -7, -6, -5, -4, -3, -2, -1])"

text \<open>A generator for examples: the seed is the state, a draw reverses the range.\<close>

definition toy_bitgen :: "nat bitgen" where
  "toy_bitgen = \<lparr>RandomState = (\<lambda>seed. seed), permutation = (\<lambda>g n. (rev [0 ..< n], Suc g))\<rparr>"

definition failing_dock :: "string \<Rightarrow> pyerror + rat list list" where
  "failing_dock ligand =
     (if ligand = ''b.pdbqt'' then Inl RuntimeError
      else Inr [[-7, -8, -1, 2, -1], [-6, -7, -1, 2, -1]])"

text \<open>Whether docking a ligand yields a score.\<close>

definition docks :: "(string \<Rightarrow> pyerror + rat list list) \<Rightarrow> string \<Rightarrow> bool" where
  "docks dock ligand = (case outcome dock ligand of Inl e \<Rightarrow> False | Inr s \<Rightarrow> True)"

text \<open>Four compounds of which the last two have the same predicted score, and the
  tie order of a sort that leaves equal keys in descending order of position.\<close>

definition tied_db :: dataframe where
  "tied_db = map (\<lambda>(l, p).
       \<lparr>label = l,
        cols = [(''RDKit'', Vec [of_nat l]), (''Scores'', Num (- of_nat l)),
                (''Predictions'', Num p)]\<rparr>)
     (zip [0 ..< 4] [2, 1, 0, 0])"

definition later_first :: "rat list \<Rightarrow> nat \<Rightarrow> nat" where
  "later_first a i = length a - i"

text \<open>The tie order of a stable sort.\<close>

definition earlier_first :: "rat list \<Rightarrow> nat \<Rightarrow> nat" where
  "earlier_first a i = i"

text \<open>The scenario database with a compound of missing score in the middle, and whether
  a row satisfies a predicate on the score, as Python evaluates it: a comparison with NaN
  is False.\<close>

definition nan_db :: dataframe where
  "nan_db =
     [mk_row 0 (-9),
      \<lparr>label = 1, cols = [(''RDKit'', Vec [1]), (''Scores'', NaN)]\<rparr>,
      mk_row 2 1,
      mk_row 3 (-7)]"

definition satisfies :: "(rat \<Rightarrow> bool) \<Rightarrow> compound \<Rightarrow> bool" where
  "satisfies P r = (case map_of (cols r) ''Scores'' of Some (Num v) \<Rightarrow> P v | _ \<Rightarrow> False)"

text \<open>Whether the score of a row is a float, a number or NaN.\<close>

definition has_float_score :: "compound \<Rightarrow> bool" where
  "has_float_score r =
     (case map_of (cols r) ''Scores'' of Some (Num v) \<Rightarrow> True | Some NaN \<Rightarrow> True | _ \<Rightarrow> False)"

text \<open>Ten samples and their labels for a stratified split, with the shares per class
  that the two calls of \<^verbatim>\<open>_approximate_mode\<close> give for 8 and 2 draws from classes of
  7 and 3.\<close>

definition labels10 :: "bool list" where
  "labels10 = [True, True, True, False, False, False, False, False, False, False]"

definition toy_mode :: "nat \<Rightarrow> nat list \<Rightarrow> nat \<Rightarrow> nat list" where
  "toy_mode k counts n_draws = (if k = 0 then [6, 2] else [1, 1])"

text \<open>Ten labels with a class of one member, and four labels with two members per
  class.\<close>

definition one_active :: "bool list" where
  "one_active = [True, False, False, False, False, False, False, False, False, False]"

definition two_each :: "bool list" where
  "two_each = [True, True, False, False]"

text \<open>A permutation draw for examples: it reverses its array.\<close>

definition toy_shuffle :: "nat \<Rightarrow> nat list \<Rightarrow> nat list" where
  "toy_shuffle k xs = rev xs"

section \<open>Properties of the filter\<close>

lemma getattr_col_Inr:
  "getattr_col df c = Inr cs \<Longrightarrow> cs = map (\<lambda>r. the (map_of (cols r) c)) df \<and>
     (\<forall>r \<in> set df. map_of (cols r) c \<noteq> None)"
  by (induction df arbitrary: cs) (auto split: option.splits sum.splits)

lemma compare_col_Inr:
  "compare_col p cs = Inr msk \<Longrightarrow>
     (\<forall>x \<in> set cs. (\<exists>v. x = Num v) \<or> x = NaN) \<and>
     msk = map (\<lambda>x. case x of Num v \<Rightarrow> p v | NaN \<Rightarrow> False | Vec w \<Rightarrow> False) cs"
  by (induction p cs arbitrary: msk rule: compare_col.induct) (auto split: sum.splits)

lemma getitem_mask_map: "getitem_mask df (map f df) = filter f df"
  by (induction df) (auto simp: getitem_mask_def)

lemma has_float_score_iff:
  "has_float_score r \<longleftrightarrow>
     (\<exists>v. map_of (cols r) ''Scores'' = Some (Num v)) \<or> map_of (cols r) ''Scores'' = Some NaN"
  by (auto simp: has_float_score_def split: option.splits cell.splits)

lemma satisfies_badrow: "satisfies P r = badrow P r"
  by (auto simp: satisfies_def badrow_def score_of_def split: option.splits cell.splits)

lemma drop_rows_where_Inr:
  assumes "drop_rows_where bad df = Inr out"
  shows "(\<forall>r \<in> set df. has_float_score r) \<and>
         out = filter (\<lambda>r. label r \<notin> label ` {x \<in> set df. badrow bad x}) df"
proof -
  from assms obtain cs msk where cs: "getattr_col df ''Scores'' = Inr cs"
    and msk: "compare_col bad cs = Inr msk"
    and dl: "drop_labels df (index_of (getitem_mask df msk)) = Inr out"
    by (auto simp: drop_rows_where_def split: sum.splits)
  note c = getattr_col_Inr [OF cs] and m = compare_col_Inr [OF msk]
  have fl: "has_float_score r" if r: "r \<in> set df" for r
  proof -
    from r c have "the (map_of (cols r) ''Scores'') \<in> set cs"
      and "map_of (cols r) ''Scores'' \<noteq> None" by auto
    with m show ?thesis unfolding has_float_score_iff by auto
  qed
  have "(case the (map_of (cols r) ''Scores'') of Num v \<Rightarrow> bad v | NaN \<Rightarrow> False
           | Vec w \<Rightarrow> False) = badrow bad r" if r: "r \<in> set df" for r
    using fl [OF r] unfolding has_float_score_iff
    by (auto simp: badrow_def score_of_def)
  with c m have "msk = map (badrow bad) df" by (auto simp: comp_def)
  then have "getitem_mask df msk = filter (badrow bad) df"
    by (simp add: getitem_mask_map)
  with dl have "out = filter (\<lambda>r. label r \<notin> label ` {x \<in> set df. badrow bad x}) df"
    by (auto simp: drop_labels_def index_of_def split: if_splits intro: filter_cong)
  with fl show ?thesis by simp
qed

lemma drop_rows_where_total:
  assumes "\<forall>r \<in> set df. has_float_score r"
  shows "\<exists>out. drop_rows_where bad df = Inr out"
proof -
  have a: "\<And>xs. (\<forall>r \<in> set xs. has_float_score r) \<Longrightarrow>
     \<exists>cs. getattr_col xs ''Scores'' = Inr cs \<and> (\<forall>x \<in> set cs. (\<exists>v. x = Num v) \<or> x = NaN)"
    subgoal for xs by (induction xs) (auto simp: has_float_score_iff)
    done
  have b: "\<And>cs. (\<forall>x \<in> set cs. (\<exists>v. x = Num v) \<or> x = NaN) \<Longrightarrow>
     \<exists>msk. compare_col bad cs = Inr msk"
    subgoal for cs by (induction cs) auto
    done
  from a [OF assms] obtain cs where cs: "getattr_col df ''Scores'' = Inr cs"
    and "\<forall>x \<in> set cs. (\<exists>v. x = Num v) \<or> x = NaN" by blast
  with b obtain msk where msk: "compare_col bad cs = Inr msk" by blast
  have "set (index_of (getitem_mask df msk)) \<subseteq> set (index_of df)"
    by (auto simp: index_of_def getitem_mask_def dest!: set_zip_leftD)
  then show ?thesis
    by (simp add: drop_rows_where_def cs msk drop_labels_def)
qed

lemma drop_rows_where_not_bad:
  assumes "drop_rows_where bad df = Inr out" and "r \<in> set out"
  shows "has_float_score r \<and> \<not> badrow bad r"
proof -
  note d = drop_rows_where_Inr [OF assms(1)]
  from d assms(2) have r: "r \<in> set df" and nl: "label r \<notin> label ` {x \<in> set df. badrow bad x}"
    by auto
  from r nl have "\<not> badrow bad r" by blast
  with d r show ?thesis by blast
qed

lemma drop_rows_where_idem:
  assumes "drop_rows_where bad df = Inr out"
  shows "drop_rows_where bad out = Inr out"
proof -
  have nb: "\<forall>r \<in> set out. has_float_score r \<and> \<not> badrow bad r"
    using drop_rows_where_not_bad [OF assms] by blast
  then have "\<forall>r \<in> set out. has_float_score r" by auto
  from drop_rows_where_total [OF this] obtain out' where o: "drop_rows_where bad out = Inr out'"
    by blast
  from nb have "{x \<in> set out. badrow bad x} = {}" by auto
  with drop_rows_where_Inr [OF o] have "out' = out" by simp
  with o show ?thesis by simp
qed

lemma drop_rows_where_subseq:
  "drop_rows_where bad df = Inr out \<Longrightarrow> subseq out df"
  by (drule drop_rows_where_Inr) simp

lemma drop_rows_where_distinct_labels:
  assumes "drop_rows_where bad df = Inr out" and "distinct (index_of df)"
  shows "out = filter (\<lambda>r. \<not> badrow bad r) df"
proof -
  have "label r \<notin> label ` {x \<in> set df. badrow bad x} \<longleftrightarrow> \<not> badrow bad r" if "r \<in> set df" for r
  proof -
    have "x = r" if "x \<in> set df" "label x = label r" for x
      using that \<open>r \<in> set df\<close> assms(2) unfolding index_of_def
      by (meson distinct_map inj_onD)
    then show ?thesis using that by auto
  qed
  with drop_rows_where_Inr [OF assms(1)] show ?thesis
    by (auto intro: filter_cong)
qed

lemma not_positive_cases:
  assumes "has_float_score r" and "\<not> badrow (\<lambda>s. s > 0) r"
  shows "map_of (cols r) ''Scores'' = Some NaN \<or> satisfies (\<lambda>s. s \<le> 0) r"
  using assms unfolding has_float_score_iff
  by (auto simp: badrow_def score_of_def satisfies_def not_less)

lemma scenario_filter: "drop_positive scenario_db = Inr scenario_filtered"
  by code_simp

text \<open>
  C2, as the filter is written. \<^verbatim>\<open>database.drop(database[ database.Scores > 0 ].index)\<close>
  removes the rows that the comparison flags and no other, for any comparison \<open>bad\<close> in the
  place of \<^verbatim>\<open>> 0\<close>. Whenever it returns a frame, the frame's rows are rows of the source in
  their original relative order (a subsequence of it), and no row kept is flagged; it does
  return a frame whenever every row has a float for a score; when the index labels are
  distinct the rows kept are exactly the rows not flagged. For the notebook's comparison
  a row kept has a score that is NaN or at most 0: a row with a missing score is not
  flagged by \<^verbatim>\<open>Scores > 0\<close>, so it is kept, though it does not satisfy \<open>score \<le> 0\<close>.
  On the database of the 10 scores -9, ..., -1, 1 the filter returns the 9 rows with the
  negative scores, that is all but the last row.
\<close>

theorem filter_keeps_ordered_subset_not_flagged:
  "(drop_rows_where bad df = Inr out \<longrightarrow>
      subseq out df \<and>
      (\<forall>r \<in> set out. has_float_score r \<and> \<not> badrow bad r) \<and>
      (distinct (index_of df) \<longrightarrow> out = filter (\<lambda>r. \<not> badrow bad r) df)) \<and>
   ((\<forall>r \<in> set df. has_float_score r) \<longrightarrow> (\<exists>res. drop_rows_where bad df = Inr res)) \<and>
   (drop_positive df = Inr out \<longrightarrow>
      (\<forall>r \<in> set out. map_of (cols r) ''Scores'' = Some NaN \<or> satisfies (\<lambda>s. s \<le> 0) r)) \<and>
   drop_positive scenario_db = Inr scenario_filtered \<and>
   scenario_filtered = butlast scenario_db \<and>
   map score_of scenario_filtered =
     map Some [-9, -8, -7, -6, -5, -4, -3, -2, -1]"
proof (intro conjI impI)
  assume a: "drop_rows_where bad df = Inr out"
  show "subseq out df" by (rule drop_rows_where_subseq [OF a])
  show "\<forall>r \<in> set out. has_float_score r \<and> \<not> badrow bad r"
    using drop_rows_where_not_bad [OF a] by blast
  show "out = filter (\<lambda>r. \<not> badrow bad r) df" if "distinct (index_of df)"
    by (rule drop_rows_where_distinct_labels [OF a that])
next
  assume "\<forall>r \<in> set df. has_float_score r"
  then show "\<exists>res. drop_rows_where bad df = Inr res" by (rule drop_rows_where_total)
next
  assume "drop_positive df = Inr out"
  then have "drop_rows_where (\<lambda>s. s > 0) df = Inr out" by (simp add: drop_positive_def)
  from drop_rows_where_not_bad [OF this]
  show "\<forall>r \<in> set out. map_of (cols r) ''Scores'' = Some NaN \<or> satisfies (\<lambda>s. s \<le> 0) r"
    using not_positive_cases by blast
next
  show "drop_positive scenario_db = Inr scenario_filtered" by (rule scenario_filter)
  show "scenario_filtered = butlast scenario_db" by code_simp
  show "map score_of scenario_filtered = map Some [-9, -8, -7, -6, -5, -4, -3, -2, -1]"
    by code_simp
qed

theorem filter_not_flagged_witness:
  "drop_positive scenario_db = Inr scenario_filtered \<and>
   subseq scenario_filtered scenario_db \<and>
   list_all (satisfies (\<lambda>s. s \<le> 0)) scenario_filtered \<and>
   length scenario_filtered = 9 \<and>
   drop_positive nan_db = Inr [nan_db ! 0, nan_db ! 1, nan_db ! 3] \<and>
   subseq [nan_db ! 0, nan_db ! 1, nan_db ! 3] nan_db"
proof -
  have h: "drop_positive scenario_db = Inr scenario_filtered" by code_simp
  then have h': "drop_rows_where (\<lambda>s. s > 0) scenario_db = Inr scenario_filtered"
    by (simp add: drop_positive_def)
  note t = filter_keeps_ordered_subset_not_flagged
    [of "\<lambda>s. s > 0" scenario_db scenario_filtered]
  from t h' have 1: "subseq scenario_filtered scenario_db" by blast
  have 2: "list_all (satisfies (\<lambda>s. s \<le> 0)) scenario_filtered" by code_simp
  have 3: "length scenario_filtered = 9" by code_simp
  have n: "drop_positive nan_db = Inr [nan_db ! 0, nan_db ! 1, nan_db ! 3]" by code_simp
  then have n': "drop_rows_where (\<lambda>s. s > 0) nan_db = Inr [nan_db ! 0, nan_db ! 1, nan_db ! 3]"
    by (simp add: drop_positive_def)
  from filter_keeps_ordered_subset_not_flagged
    [of "\<lambda>s. s > 0" nan_db "[nan_db ! 0, nan_db ! 1, nan_db ! 3]"] n'
  have 4: "subseq [nan_db ! 0, nan_db ! 1, nan_db ! 3] nan_db" by blast
  from h 1 2 3 n 4 show ?thesis by blast
qed

text \<open>The claim as stated fails on a missing score. In \<open>nan_db\<close> the score of the second
  row is NaN; the filter drops the row with score 1 only, and keeps the row with the NaN
  score, which does not satisfy \<open>score \<le> 0\<close>.\<close>

theorem filter_nan_counterexample:
  "drop_positive nan_db = Inr [nan_db ! 0, nan_db ! 1, nan_db ! 3] \<and>
   map_of (cols (nan_db ! 1)) ''Scores'' = Some NaN \<and>
   \<not> satisfies (\<lambda>s. s \<le> 0) (nan_db ! 1) \<and>
   map (satisfies (\<lambda>s. s \<le> 0)) [nan_db ! 0, nan_db ! 1, nan_db ! 3] = [True, False, True]"
  by code_simp

section \<open>Idempotence and purity of the filter\<close>

lemma cell_filter_Inr:
  assumes "cell_filter s = Inr s'"
  shows "\<exists>a df out. globals s ''database'' = Some a \<and> heap s a = Some df \<and>
           drop_positive df = Inr out \<and>
           s' = s\<lparr>globals := (globals s)(''database'' \<mapsto> next_id s),
                   heap := (heap s)(next_id s \<mapsto> out),
                   next_id := Suc (next_id s)\<rparr>"
  using assms by (auto simp: cell_filter_def split: option.splits sum.splits)

text \<open>
  C5. Filtering a filtered database again returns it unchanged, for every comparison
  \<open>bad\<close>. And the statement does not mutate the frame it filters: in a session whose
  objects all have identities below the next free one, after
  \<^verbatim>\<open>database = database.drop(...)\<close> every object that existed before, the source
  frame among them, has the value it had; the result is a new object, and only the name
  \<^verbatim>\<open>database\<close> is bound anew, to that object.
\<close>

theorem filter_idempotent_and_pure:
  "(drop_rows_where bad df = Inr out \<longrightarrow> drop_rows_where bad out = Inr out) \<and>
   (session_ok s \<and> cell_filter s = Inr s' \<longrightarrow>
      (\<forall>a. heap s a \<noteq> None \<longrightarrow> heap s' a = heap s a) \<and>
      (\<exists>a src res. globals s ''database'' = Some a \<and> heap s a = Some src \<and>
         heap s' a = Some src \<and> drop_positive src = Inr res \<and>
         globals s' ''database'' = Some (next_id s) \<and> next_id s \<noteq> a \<and>
         heap s' (next_id s) = Some res) \<and>
      (\<forall>x. x \<noteq> ''database'' \<longrightarrow> globals s' x = globals s x) \<and>
      session_ok s')"
proof (intro conjI impI)
  assume "drop_rows_where bad df = Inr out"
  then show "drop_rows_where bad out = Inr out" by (rule drop_rows_where_idem)
next
  assume a: "session_ok s \<and> cell_filter s = Inr s'"
  then obtain a0 src res where g: "globals s ''database'' = Some a0"
    and h: "heap s a0 = Some src" and d: "drop_positive src = Inr res"
    and s': "s' = s\<lparr>globals := (globals s)(''database'' \<mapsto> next_id s),
                     heap := (heap s)(next_id s \<mapsto> res),
                     next_id := Suc (next_id s)\<rparr>"
    using cell_filter_Inr by blast
  from a have fresh: "heap s (next_id s) = None"
    by (simp add: session_ok_def)
  show "\<forall>a. heap s a \<noteq> None \<longrightarrow> heap s' a = heap s a"
    using fresh by (auto simp: s')
  from h fresh have ne: "next_id s \<noteq> a0" by auto
  show "\<exists>a src res. globals s ''database'' = Some a \<and> heap s a = Some src \<and>
         heap s' a = Some src \<and> drop_positive src = Inr res \<and>
         globals s' ''database'' = Some (next_id s) \<and> next_id s \<noteq> a \<and>
         heap s' (next_id s) = Some res"
    using g h d ne by (auto simp: s')
  show "\<forall>x. x \<noteq> ''database'' \<longrightarrow> globals s' x = globals s x"
    by (simp add: s')
  show "session_ok s'"
    using a by (auto simp: s' session_ok_def)
qed

theorem filter_idempotent_and_pure_witness:
  "drop_positive scenario_filtered = Inr scenario_filtered \<and>
   (\<exists>s'. cell_filter \<lparr>globals = [''database'' \<mapsto> 0], heap = [0 \<mapsto> scenario_db], next_id = 1\<rparr>
            = Inr s' \<and>
          heap s' 0 = Some scenario_db \<and>
          globals s' ''database'' = Some 1 \<and>
          heap s' 1 = Some scenario_filtered)"
proof -
  let ?s = "\<lparr>globals = [''database'' \<mapsto> 0], heap = [0 \<mapsto> scenario_db], next_id = 1\<rparr>"
  let ?s' = "\<lparr>globals = [''database'' \<mapsto> 1], heap = [0 \<mapsto> scenario_db, 1 \<mapsto> scenario_filtered],
               next_id = 2\<rparr>"
  have d: "drop_rows_where (\<lambda>s. s > 0) scenario_db = Inr scenario_filtered"
    using scenario_filter by (simp add: drop_positive_def)
  have ok: "session_ok ?s" by (simp add: session_ok_def)
  have c: "cell_filter ?s = Inr ?s'"
    by (simp add: cell_filter_def scenario_filter numeral_2_eq_2)
  note t = filter_idempotent_and_pure [of "\<lambda>s. s > 0" scenario_db scenario_filtered ?s ?s']
  from t d have 1: "drop_positive scenario_filtered = Inr scenario_filtered"
    by (simp add: drop_positive_def)
  from t ok c have "heap ?s' 0 = heap ?s 0" by auto
  then have 2: "heap ?s' 0 = Some scenario_db" by simp
  from 1 2 c show ?thesis by auto
qed

section \<open>Labels for the classifier\<close>

text \<open>
  C4. On the ten scores -10, ..., -1 the 30th percentile is -7.3 and the labelling marks
  exactly the three most negative scores, -10, -9 and -8, as active and the other seven
  as inactive. The labels do not depend on how the interpolation is rounded: any
  threshold above -8 and up to -7 gives them.
\<close>

theorem percentile_labels_three_most_negative:
  "make_categorical scores10 =
     Inr (-73/10, [True, True, True, False, False, False, False, False, False, False]) \<and>
   scores10 = [-10, -9, -8, -7, -6, -5, -4, -3, -2, -1] \<and>
   (-8 < t \<and> t \<le> -7 \<longrightarrow>
      map (\<lambda>score. score < t) scores10 =
        [True, True, True, False, False, False, False, False, False, False])"
proof (intro conjI impI)
  show "make_categorical scores10 =
     Inr (-73/10, [True, True, True, False, False, False, False, False, False, False])"
    by code_simp
  show "scores10 = [-10, -9, -8, -7, -6, -5, -4, -3, -2, -1]"
    by (simp add: scores10_def)
  assume "-8 < t \<and> t \<le> -7"
  then show "map (\<lambda>score. score < t) scores10 =
        [True, True, True, False, False, False, False, False, False, False]"
    by (simp add: scores10_def)
qed

theorem percentile_labels_witness:
  "map (\<lambda>score. score < -73/10) scores10 =
     [True, True, True, False, False, False, False, False, False, False] \<and>
   percentile scores10 30 = Inr (-73/10)"
proof -
  have "(-8::rat) < -73/10 \<and> (-73/10::rat) \<le> -7" by simp
  with percentile_labels_three_most_negative [of "-73/10"]
  have "map (\<lambda>score. score < -73/10) scores10 =
     [True, True, True, False, False, False, False, False, False, False]" by blast
  moreover have "percentile scores10 30 = Inr (-73/10)" by code_simp
  ultimately show ?thesis by blast
qed

text \<open>
  C10. The label is the strict comparison \<open>score < threshold\<close> with the 30th percentile
  of the list: the list of labels is as long as the list of scores, a score is active
  exactly when it is below the threshold, and so a score equal to the threshold is
  inactive.
\<close>

theorem score_at_threshold_is_inactive:
  "make_categorical y = Inr (threshold, y_cls) \<and> i < length y \<longrightarrow>
     percentile y 30 = Inr threshold \<and>
     length y_cls = length y \<and>
     (y_cls ! i \<longleftrightarrow> y ! i < threshold) \<and>
     (y ! i = threshold \<longrightarrow> \<not> y_cls ! i)"
  by (auto simp: make_categorical_def split: sum.splits)

theorem score_at_threshold_witness:
  "make_categorical scores11 =
     Inr (3, [True, True, True, False, False, False, False, False, False, False, False]) \<and>
   scores11 ! 3 = 3 \<and>
   \<not> [True, True, True, False, False, False, False, False, False, False, False] ! 3"
proof -
  have m: "make_categorical scores11 =
     Inr (3, [True, True, True, False, False, False, False, False, False, False, False])"
    by code_simp
  have i: "3 < length scores11" and e: "scores11 ! 3 = 3"
    by (simp_all add: scores11_def)
  from score_at_threshold_is_inactive
    [of scores11 3 "[True, True, True, False, False, False, False, False, False, False, False]" 3]
    m i e
  have "\<not> [True, True, True, False, False, False, False, False, False, False, False] ! 3"
    by blast
  with m e show ?thesis by blast
qed

section \<open>Prediction\<close>

lemma as_2d_Vecs:
  "X \<noteq> [] \<Longrightarrow> list_all (\<lambda>x. \<exists>v. x = Vec v \<and> length v = k) X \<Longrightarrow>
     as_2d X = Inr (map vec_of X)"
proof (induction X rule: as_2d.induct)
  case (3 v c cs)
  then have "as_2d (c # cs) = Inr (map vec_of (c # cs))" by simp
  moreover from 3 have "length v = k" and "length (vec_of c) = k" by auto
  ultimately show ?case by simp
qed auto

lemma as_2d_Inr:
  "as_2d X = Inr rows \<Longrightarrow>
     X \<noteq> [] \<and> rows = map vec_of X \<and>
     list_all (\<lambda>x. \<exists>v. x = Vec v \<and> length v = length (hd rows)) X"
proof (induction X arbitrary: rows rule: as_2d.induct)
  case (3 v c cs)
  from "3.prems" obtain rs where rs: "as_2d (c # cs) = Inr rs"
    and l: "length v = length (hd rs)" and rows: "rows = v # rs"
    by (auto split: sum.splits if_splits)
  from "3.IH" [OF rs] have ne: "c # cs \<noteq> []" and m: "rs = map vec_of (c # cs)"
    and a: "list_all (\<lambda>x. \<exists>w. x = Vec w \<and> length w = length (hd rs)) (c # cs)"
    by blast+
  from a have "list_all (\<lambda>x. \<exists>w. x = Vec w \<and> length w = length v) (c # cs)"
    unfolding l [symmetric] .
  with m rows show ?case by simp
qed auto

lemma check_array_Inr:
  "check_array X = Inr rows \<Longrightarrow>
     X \<noteq> [] \<and> rows = map vec_of X \<and>
     list_all (\<lambda>x. \<exists>v. x = Vec v \<and> length v = length (hd rows)) X"
  by (auto simp: check_array_def split: sum.splits if_splits dest!: as_2d_Inr)

lemma predict_needs_a_sample_aux:
  assumes "X \<noteq> []" and "list_all (\<lambda>x. \<exists>v. x = Vec v \<and> length v = n_features_in reg) X"
    and "\<not> list_ex (\<lambda>x. list_ex float32_overflows (vec_of x)) X"
  shows "predict reg X = Inr (map (predict_one reg) (map vec_of X))"
proof -
  from assms(1,2) have a: "as_2d X = Inr (map vec_of X)"
    using as_2d_Vecs [of X "n_features_in reg"] by blast
  from assms(3) have "\<not> list_ex (\<lambda>row. list_ex float32_overflows row) (map vec_of X)"
    by (simp add: list_ex_iff)
  with a have c: "check_array X = Inr (map vec_of X)" by (simp add: check_array_def)
  from assms obtain x xs where X: "X = x # xs" by (cases X) auto
  with assms have "length (vec_of x) = n_features_in reg" by auto
  with c X show ?thesis by (simp add: predict_def)
qed

text \<open>
  C8, as the library behaves. \<^verbatim>\<open>predict\<close> on an empty list raises ValueError, for every
  fitted model: an empty list is not a two-dimensional array with at least one row. It
  returns no list.
\<close>

theorem predict_empty_list_raises:
  "predict reg [] = Inl ValueError \<and> predict reg [] \<noteq> Inr ys"
  by (simp add: predict_def check_array_def)

text \<open>The claim as stated fails: the empty list is answered with an error, not with the
  empty list.\<close>

theorem predict_empty_list_counterexample:
  "predict toy_reg [] = Inl ValueError \<and> predict toy_reg [] \<noteq> Inr []"
  by (simp add: predict_def check_array_def)

section \<open>Docking loop\<close>

lemma announced_append: "announced (xs @ ys) = announced xs @ announced ys"
  by (induction xs rule: announced.induct) auto

lemma announced_pose_lines: "announced (map (\<lambda>(pose, energy). Pose_line pose energy) zs) = []"
  by (induction zs) auto

lemma docking_loop_result:
  "docking_scores (fst (docking_loop dock ls st)) =
     docking_scores st @ map (\<lambda>l. projr (outcome dock l)) (takeWhile (docks dock) ls) \<and>
   snd (docking_loop dock ls st) =
     (case dropWhile (docks dock) ls of [] \<Rightarrow> None | l # rest \<Rightarrow> Some (projl (outcome dock l))) \<and>
   announced (stdout (fst (docking_loop dock ls st))) =
     announced (stdout st) @ takeWhile (docks dock) ls @ take 1 (dropWhile (docks dock) ls)"
proof (induction ls arbitrary: st)
  case Nil
  show ?case by simp
next
  case (Cons l ls)
  show ?case
  proof (cases "dock l")
    case (Inl e)
    then show ?thesis by (simp add: docks_def outcome_def announced_append)
  next
    case (Inr poses)
    show ?thesis
    proof (cases "best_total poses")
      case (Inl e)
      with Inr show ?thesis
        by (simp add: docks_def outcome_def Let_def announced_append announced_pose_lines)
    next
      case r: (Inr score)
      with Inr show ?thesis
        by (simp add: docks_def outcome_def Let_def Cons.IH announced_append
            announced_pose_lines)
    qed
  qed
qed

text \<open>
  C9, as the loop is written. The loop has no exception handler, so a failure on one
  ligand ends it. The scores collected are those of the ligands before the first one that
  fails; that ligand's exception is the outcome of the cell; the ligands the loop has
  started on are those before the failing one and the failing one itself: no ligand after
  it is processed. When no ligand fails, every one of the first \<^verbatim>\<open>N_TO_DOCK\<close> ligands
  is docked and there is no error.
\<close>

theorem docking_failure_ends_the_loop:
  "docking_scores (fst (cell_docking dock ligands n)) =
     map (\<lambda>l. projr (outcome dock l)) (takeWhile (docks dock) (take n ligands)) \<and>
   snd (cell_docking dock ligands n) =
     (case dropWhile (docks dock) (take n ligands) of
        [] \<Rightarrow> None
      | l # rest \<Rightarrow> Some (projl (outcome dock l))) \<and>
   announced (stdout (fst (cell_docking dock ligands n))) =
     takeWhile (docks dock) (take n ligands) @ take 1 (dropWhile (docks dock) (take n ligands))"
  using docking_loop_result [of dock "take n ligands" "\<lparr>docking_scores = [], stdout = []\<rparr>"]
  by (simp add: cell_docking_def)

text \<open>The claim as stated fails: with an engine that fails on the second of three ligands
  the cell ends with that error, with the first score only, and the third ligand is never
  started on.\<close>

theorem docking_failure_counterexample:
  "cell_docking failing_dock [''a.pdbqt'', ''b.pdbqt'', ''c.pdbqt''] 3 =
     (\<lparr>docking_scores = [-7],
       stdout = [Docking_ligand ''a.pdbqt'', Scores_header,
                 Pose_line 0 [-7, -8, -1, 2, -1], Pose_line 1 [-6, -7, -1, 2, -1], Stars,
                 Docking_ligand ''b.pdbqt'']\<rparr>,
      Some RuntimeError) \<and>
   failing_dock ''c.pdbqt'' = Inr [[-7, -8, -1, 2, -1], [-6, -7, -1, 2, -1]] \<and>
   announced (stdout (fst (cell_docking failing_dock [''a.pdbqt'', ''b.pdbqt'', ''c.pdbqt''] 3)))
     = [''a.pdbqt'', ''b.pdbqt'']"
  by code_simp

section \<open>Scorer\<close>

lemma zip_map_same: "map f (zip xs (map g xs)) = map (\<lambda>x. f (x, g x)) xs"
  by (induction xs) auto

lemma update_absent: "k \<notin> fst ` set al \<Longrightarrow> AList.update k v al = al @ [(k, v)]"
  by (induction al) auto

lemma scorer_Inr:
  assumes "scorer reg df = Inr out"
  shows "df \<noteq> [] \<and>
     (\<forall>r \<in> set df. \<exists>fp. map_of (cols r) ''RDKit'' = Some (Vec fp) \<and> length fp = n_features_in reg) \<and>
     out = map (\<lambda>r. r\<lparr>cols := AList.update ''Predictions''
                        (Num (predict_one reg (fingerprint_of r))) (cols r)\<rparr>) df"
proof -
  from assms obtain X preds where X: "getattr_col df ''RDKit'' = Inr X"
    and p: "predict reg X = Inr preds"
    and s: "setitem_col df ''Predictions'' preds = Inr out"
    by (auto simp: scorer_def split: sum.splits)
  from p obtain rows where c: "check_array X = Inr rows"
    and w: "length (hd rows) = n_features_in reg"
    and preds: "preds = map (predict_one reg) rows"
    by (auto simp: predict_def split: sum.splits if_splits)
  note g = getattr_col_Inr [OF X] and ca = check_array_Inr [OF c]
  from g ca have ne: "df \<noteq> []" by auto
  have vec: "\<exists>fp. map_of (cols r) ''RDKit'' = Some (Vec fp) \<and> length fp = n_features_in reg"
    if "r \<in> set df" for r
  proof -
    from that g have "the (map_of (cols r) ''RDKit'') \<in> set X"
      and "map_of (cols r) ''RDKit'' \<noteq> None" by auto
    with ca w show ?thesis by (auto simp: list_all_iff)
  qed
  have "preds = map (\<lambda>r. predict_one reg (fingerprint_of r)) df"
  proof -
    have "vec_of (the (map_of (cols r) ''RDKit'')) = fingerprint_of r" if "r \<in> set df" for r
      using vec [OF that] by (auto simp: fingerprint_of_def)
    with g ca preds show ?thesis by (auto simp: comp_def)
  qed
  with s have "out = map (\<lambda>r. r\<lparr>cols := AList.update ''Predictions''
                        (Num (predict_one reg (fingerprint_of r))) (cols r)\<rparr>) df"
    by (auto simp: setitem_col_def zip_map_same split: if_splits)
  with ne vec show ?thesis by blast
qed

lemma scorer_total:
  assumes "df \<noteq> []"
    and "\<forall>r \<in> set df. \<exists>fp. map_of (cols r) ''RDKit'' = Some (Vec fp) \<and>
           length fp = n_features_in reg \<and> \<not> list_ex float32_overflows fp"
  shows "\<exists>out. scorer reg df = Inr out"
proof -
  have a: "\<And>xs. (\<forall>r \<in> set xs. \<exists>fp. map_of (cols r) ''RDKit'' = Some (Vec fp) \<and>
              length fp = n_features_in reg \<and> \<not> list_ex float32_overflows fp) \<Longrightarrow>
     \<exists>X. getattr_col xs ''RDKit'' = Inr X \<and> length X = length xs \<and>
       list_all (\<lambda>x. \<exists>v. x = Vec v \<and> length v = n_features_in reg) X \<and>
       \<not> list_ex (\<lambda>x. list_ex float32_overflows (vec_of x)) X"
    subgoal for xs by (induction xs) auto
    done
  from a [OF assms(2)] obtain X where X: "getattr_col df ''RDKit'' = Inr X"
    and l: "length X = length df"
    and v: "list_all (\<lambda>x. \<exists>v. x = Vec v \<and> length v = n_features_in reg) X"
    and f: "\<not> list_ex (\<lambda>x. list_ex float32_overflows (vec_of x)) X" by blast
  from l assms(1) have ne: "X \<noteq> []" by auto
  from predict_needs_a_sample_aux [OF ne v f]
  have p: "predict reg X = Inr (map (predict_one reg) (map vec_of X))" .
  show ?thesis
    by (simp add: scorer_def X p setitem_col_def l)
qed

text \<open>
  C7. Whenever the Scorer returns (the prediction over the whole \<^verbatim>\<open>RDKit\<close> column in
  one call, then \<^verbatim>\<open>database['Predictions'] = predicted_scores\<close>), the database is the
  input database, row by row, with the column \<^verbatim>\<open>Predictions\<close> set to the model's
  prediction for the row's descriptor vector: the rows are as many, in the same order and
  under the same index labels, and every other column of every row has the value it had.
  Where the input has no column \<^verbatim>\<open>Predictions\<close>, the result is the input with exactly
  that one column appended to every row. The Scorer returns whenever the database is not
  empty and every row has a descriptor vector of the width the model was fitted on with
  values that float32 holds.
\<close>

theorem scorer_adds_predictions_only:
  "(scorer reg df = Inr out \<longrightarrow>
      out = map (\<lambda>r. r\<lparr>cols := AList.update ''Predictions''
                        (Num (predict_one reg (fingerprint_of r))) (cols r)\<rparr>) df \<and>
      length out = length df \<and>
      index_of out = index_of df \<and>
      (\<forall>i c. i < length df \<and> c \<noteq> ''Predictions'' \<longrightarrow>
         map_of (cols (out ! i)) c = map_of (cols (df ! i)) c) \<and>
      (\<forall>i. i < length df \<longrightarrow>
         map_of (cols (out ! i)) ''Predictions'' =
           Some (Num (predict_one reg (fingerprint_of (df ! i))))) \<and>
      ((\<forall>r \<in> set df. ''Predictions'' \<notin> fst ` set (cols r)) \<longrightarrow>
         out = map (\<lambda>r. r\<lparr>cols := cols r @
                   [(''Predictions'', Num (predict_one reg (fingerprint_of r)))]\<rparr>) df)) \<and>
   (df \<noteq> [] \<and>
    (\<forall>r \<in> set df. \<exists>fp. map_of (cols r) ''RDKit'' = Some (Vec fp) \<and>
       length fp = n_features_in reg \<and> \<not> list_ex float32_overflows fp)
      \<longrightarrow> (\<exists>res. scorer reg df = Inr res))"
proof (intro conjI impI allI)
  assume a: "scorer reg df = Inr out"
  from scorer_Inr [OF a]
  show out: "out = map (\<lambda>r. r\<lparr>cols := AList.update ''Predictions''
                        (Num (predict_one reg (fingerprint_of r))) (cols r)\<rparr>) df"
    by blast
  then show "length out = length df" by simp
  from out show "index_of out = index_of df" by (simp add: index_of_def comp_def)
  show "map_of (cols (out ! i)) c = map_of (cols (df ! i)) c"
    if "i < length df \<and> c \<noteq> ''Predictions''" for i c
    using that by (simp add: out update_conv')
  show "map_of (cols (out ! i)) ''Predictions'' =
           Some (Num (predict_one reg (fingerprint_of (df ! i))))" if "i < length df" for i
    using that by (simp add: out update_conv')
  show "out = map (\<lambda>r. r\<lparr>cols := cols r @
                   [(''Predictions'', Num (predict_one reg (fingerprint_of r)))]\<rparr>) df"
    if "\<forall>r \<in> set df. ''Predictions'' \<notin> fst ` set (cols r)"
    using that unfolding out by (auto simp: update_absent)
next
  assume "df \<noteq> [] \<and>
    (\<forall>r \<in> set df. \<exists>fp. map_of (cols r) ''RDKit'' = Some (Vec fp) \<and>
       length fp = n_features_in reg \<and> \<not> list_ex float32_overflows fp)"
  then show "\<exists>res. scorer reg df = Inr res" using scorer_total by blast
qed

theorem scorer_witness:
  "scorer toy_reg scenario_filtered = Inr scenario_scored \<and>
   index_of scenario_scored = index_of scenario_filtered \<and>
   map (\<lambda>r. map_of (cols r) ''Scores'') scenario_scored =
     map (\<lambda>r. map_of (cols r) ''Scores'') scenario_filtered \<and>
   map (\<lambda>r. r\<lparr>cols := butlast (cols r)\<rparr>) scenario_scored = scenario_filtered"
proof -
  have h: "scorer toy_reg scenario_filtered = Inr scenario_scored" by code_simp
  note t = scorer_adds_predictions_only [of toy_reg scenario_filtered scenario_scored]
  from t h have 1: "index_of scenario_scored = index_of scenario_filtered" by blast
  have 2: "map (\<lambda>r. map_of (cols r) ''Scores'') scenario_scored =
     map (\<lambda>r. map_of (cols r) ''Scores'') scenario_filtered" by code_simp
  have 3: "map (\<lambda>r. r\<lparr>cols := butlast (cols r)\<rparr>) scenario_scored = scenario_filtered"
    by code_simp
  from h 1 2 3 show ?thesis by blast
qed

section \<open>Random sample\<close>

lemma perm_range_facts:
  assumes "is_permutation_of_range p n"
  shows "mset p = mset [0 ..< n]" and "length p = n" and "set p = {0 ..< n}" and "distinct p"
proof -
  from assms have s: "sort p = [0 ..< n]" by (simp add: is_permutation_of_range_def)
  have "mset p = mset (sort p)" by simp
  with s show m: "mset p = mset [0 ..< n]" by simp
  from m show "length p = n" by (metis length_upt diff_zero size_mset)
  from m show "set p = {0 ..< n}" by (metis set_mset_mset set_upt)
  from m show "distinct p" by (metis distinct_upt mset_eq_imp_distinct_iff)
qed

lemma map_nth_perm:
  assumes "is_permutation_of_range p (length xs)"
  shows "mset (map (\<lambda>i. xs ! i) p) = mset xs"
proof -
  have "mset (map (\<lambda>i. xs ! i) p) = image_mset (\<lambda>i. xs ! i) (mset p)" by simp
  also have "\<dots> = image_mset (\<lambda>i. xs ! i) (mset [0 ..< length xs])"
    using perm_range_facts(1) [OF assms] by simp
  also have "\<dots> = mset (map (\<lambda>i. xs ! i) [0 ..< length xs])" by simp
  also have "\<dots> = mset xs" by (simp add: map_nth)
  finally show ?thesis .
qed

lemma mset_take_subset: "mset (take n xs) \<subseteq># mset xs"
  by (metis append_take_drop_id mset_append mset_subset_eq_add_left)

lemma reset_index_facts:
  "index_of (reset_index df) = [0 ..< length df]"
  "map cols (reset_index df) = map cols df"
  "length (reset_index df) = length df"
  by (auto simp: reset_index_def index_of_def intro!: nth_equalityI)

lemma sample_df_seeded:
  "map_sum id fst (sample_df R g1 df n (Some seed)) = map_sum id fst (sample_df R g2 df n (Some seed))"
  by (simp add: sample_df_def split: sum.splits prod.splits)

text \<open>
  C6. With a seed, the sample is a function of the database, the sample size and the
  seed alone: two runs on the same database with the same size and seed, whatever the
  state of numpy's global generator in each, return the same rows in the same order (or
  fail alike), and leave the global generator as it was. This holds for the notebook's
  call, with seed 42, as for any seed. For a sample size up to the size of the database,
  the generator's draw being a permutation, the run returns \<open>n\<close> rows, relabelled
  0, ..., n - 1, each the content of a row of the database.
\<close>

theorem seeded_sample_is_deterministic:
  "map_sum id fst (random_sel R g1 df n) = map_sum id fst (random_sel R g2 df n) \<and>
   map_sum id fst (sample_df R g1 df n (Some seed)) =
     map_sum id fst (sample_df R g2 df n (Some seed)) \<and>
   (sample_df R g1 df n (Some seed) = Inr (sel, g') \<longrightarrow> g' = g1) \<and>
   (n \<le> length df \<and>
    is_permutation_of_range (fst (permutation R (RandomState R seed) (length df))) (length df)
      \<longrightarrow> (\<exists>res. sample_df R g1 df n (Some seed) = Inr (res, g1) \<and>
                 sample_df R g2 df n (Some seed) = Inr (res, g2) \<and>
                 length res = n \<and> index_of res = [0 ..< n] \<and>
                 mset (map cols res) \<subseteq># mset (map cols df)))"
proof (intro conjI impI)
  show "map_sum id fst (random_sel R g1 df n) = map_sum id fst (random_sel R g2 df n)"
    unfolding random_sel_def by (rule sample_df_seeded)
  show "map_sum id fst (sample_df R g1 df n (Some seed)) =
     map_sum id fst (sample_df R g2 df n (Some seed))"
    by (rule sample_df_seeded)
  show "g' = g1" if "sample_df R g1 df n (Some seed) = Inr (sel, g')"
    using that by (auto simp: sample_df_def split: sum.splits prod.splits)
next
  let ?p = "fst (permutation R (RandomState R seed) (length df))"
  let ?rows = "map (\<lambda>i. df ! i) (take n ?p)"
  assume a: "n \<le> length df \<and> is_permutation_of_range ?p (length df)"
  note f = perm_range_facts [of ?p "length df"]
  from a f have len: "length (take n ?p) = n" by simp
  from a f have "set (take n ?p) \<subseteq> {0 ..< length df}"
    by (metis set_take_subset)
  then have t: "take_idx df (take n ?p) = Inr ?rows"
    by (auto simp: take_idx_def list_all_iff)
  have c: "choice R (RandomState R seed) (length df) n =
      Inr (take n ?p, snd (permutation R (RandomState R seed) (length df)))"
    using a by (auto simp: choice_def split: prod.splits)
  have s: "sample_df R g df n (Some seed) = Inr (reset_index ?rows, g)" for g
    by (simp add: sample_df_def c t)
  have "mset (map cols ?rows) = image_mset cols (mset (map (\<lambda>i. df ! i) (take n ?p)))"
    by (simp add: multiset.map_comp)
  also have "\<dots> \<subseteq># image_mset cols (mset (map (\<lambda>i. df ! i) ?p))"
    by (metis image_mset_subseteq_mono mset_take_subset take_map)
  also have "\<dots> = mset (map cols df)"
    using a map_nth_perm [of ?p df] by simp
  finally have sub: "mset (map cols (reset_index ?rows)) \<subseteq># mset (map cols df)"
    by (simp add: reset_index_facts)
  show "\<exists>res. sample_df R g1 df n (Some seed) = Inr (res, g1) \<and>
                 sample_df R g2 df n (Some seed) = Inr (res, g2) \<and>
                 length res = n \<and> index_of res = [0 ..< n] \<and>
                 mset (map cols res) \<subseteq># mset (map cols df)"
    using s sub len by (intro exI [of _ "reset_index ?rows"]) (simp add: reset_index_facts)
qed

theorem seeded_sample_witness:
  "random_sel toy_bitgen 0 scenario_filtered 3 =
     Inr ([\<lparr>label = 0, cols = [(''RDKit'', Vec [8]), (''Scores'', Num (-1))]\<rparr>,
           \<lparr>label = 1, cols = [(''RDKit'', Vec [7]), (''Scores'', Num (-2))]\<rparr>,
           \<lparr>label = 2, cols = [(''RDKit'', Vec [6]), (''Scores'', Num (-3))]\<rparr>], 0) \<and>
   map_sum id fst (random_sel toy_bitgen 7 scenario_filtered 3) =
     map_sum id fst (random_sel toy_bitgen 0 scenario_filtered 3) \<and>
   (\<exists>res. random_sel toy_bitgen 7 scenario_filtered 3 = Inr (res, 7) \<and> length res = 3)"
proof -
  have 1: "random_sel toy_bitgen 0 scenario_filtered 3 =
     Inr ([\<lparr>label = 0, cols = [(''RDKit'', Vec [8]), (''Scores'', Num (-1))]\<rparr>,
           \<lparr>label = 1, cols = [(''RDKit'', Vec [7]), (''Scores'', Num (-2))]\<rparr>,
           \<lparr>label = 2, cols = [(''RDKit'', Vec [6]), (''Scores'', Num (-3))]\<rparr>], 0)"
    by code_simp
  have h: "3 \<le> length scenario_filtered \<and>
    is_permutation_of_range
      (fst (permutation toy_bitgen (RandomState toy_bitgen 42) (length scenario_filtered)))
      (length scenario_filtered)"
    by code_simp
  note t = seeded_sample_is_deterministic [of toy_bitgen 7 scenario_filtered 3 0 42]
  from t have 2: "map_sum id fst (random_sel toy_bitgen 7 scenario_filtered 3) =
     map_sum id fst (random_sel toy_bitgen 0 scenario_filtered 3)" by blast
  from t h have 3: "\<exists>res. random_sel toy_bitgen 7 scenario_filtered 3 = Inr (res, 7) \<and> length res = 3"
    unfolding random_sel_def by blast
  from 1 2 3 show ?thesis by blast
qed

section \<open>Selection of the top molecules\<close>

lemma as_floats_Inr:
  "as_floats cs = Inr items \<Longrightarrow>
     (\<forall>x \<in> set cs. (\<exists>v. x = Num v) \<or> x = NaN) \<and>
     items = map (\<lambda>x. case x of Num v \<Rightarrow> Some v | NaN \<Rightarrow> None | Vec w \<Rightarrow> None) cs"
  by (induction cs arbitrary: items rule: as_floats.induct) (auto split: sum.splits)

lemma predictions_Inr:
  assumes "predictions df = Inr items"
  shows "items = map pred_item df"
    and "\<forall>r \<in> set df. (\<exists>v. map_of (cols r) ''Predictions'' = Some (Num v)) \<or>
           map_of (cols r) ''Predictions'' = Some NaN"
proof -
  from assms obtain ks where g: "getattr_col df ''Predictions'' = Inr ks"
    and a: "as_floats ks = Inr items"
    by (auto simp: predictions_def getitem_col_def split: sum.splits)
  note g' = getattr_col_Inr [OF g] and a' = as_floats_Inr [OF a]
  show n: "\<forall>r \<in> set df. (\<exists>v. map_of (cols r) ''Predictions'' = Some (Num v)) \<or>
           map_of (cols r) ''Predictions'' = Some NaN"
  proof
    fix r assume "r \<in> set df"
    with g' have "the (map_of (cols r) ''Predictions'') \<in> set ks"
      and "map_of (cols r) ''Predictions'' \<noteq> None" by auto
    with a' show "(\<exists>v. map_of (cols r) ''Predictions'' = Some (Num v)) \<or>
           map_of (cols r) ''Predictions'' = Some NaN" by auto
  qed
  have "(case the (map_of (cols r) ''Predictions'') of Num v \<Rightarrow> Some v | NaN \<Rightarrow> None
           | Vec w \<Rightarrow> None) = pred_item r" if "r \<in> set df" for r
    using n that by (auto simp: pred_item_def)
  with g' a' show "items = map pred_item df" by (auto simp: comp_def)
qed

lemma predictions_total:
  "\<forall>r \<in> set df. (\<exists>v. map_of (cols r) ''Predictions'' = Some (Num v)) \<or>
           map_of (cols r) ''Predictions'' = Some NaN \<Longrightarrow>
     predictions df = Inr (map pred_item df)"
proof (induction df)
  case Nil
  show ?case by (simp add: predictions_def getitem_col_def)
next
  case (Cons r df)
  then have "predictions df = Inr (map pred_item df)" by simp
  moreover from Cons.prems have "(\<exists>v. map_of (cols r) ''Predictions'' = Some (Num v)) \<or>
           map_of (cols r) ''Predictions'' = Some NaN" by simp
  ultimately show ?case
    by (auto simp: predictions_def getitem_col_def pred_item_def split: sum.splits)
qed

lemma argsort_ok_sorts:
  assumes "argsort_ok keys p"
  shows "map (\<lambda>i. keys ! i) p = sort keys"
proof -
  from assms have perm: "is_permutation_of_range p (length keys)"
    and srt: "sorted (map (\<lambda>i. keys ! i) p)" by (simp_all add: argsort_ok_def)
  from map_nth_perm [OF perm] srt show ?thesis
    by (metis properties_for_sort)
qed

lemma argsort_ok_distinct_keys:
  assumes "sorted_wrt (<) keys" and "argsort_ok keys p"
  shows "p = [0 ..< length keys]"
proof -
  from assms(2) have perm: "is_permutation_of_range p (length keys)"
    and srt: "sorted (map (\<lambda>i. keys ! i) p)" by (simp_all add: argsort_ok_def)
  note f = perm_range_facts [OF perm]
  from srt have "sorted_wrt (\<lambda>i j. keys ! i \<le> keys ! j) p"
    by (simp add: sorted_wrt_map)
  moreover have "i \<le> j" if "i \<in> set p" "j \<in> set p" "keys ! i \<le> keys ! j" for i j
  proof (rule ccontr)
    assume "\<not> i \<le> j"
    with that f(3) have "j < i" and "i < length keys" by auto
    with assms(1) have "keys ! j < keys ! i" by (simp add: sorted_wrt_nth_less)
    with that(3) show False by simp
  qed
  ultimately have "sorted_wrt (\<le>) p"
    by (rule sorted_wrt_mono_rel [rotated]) auto
  then have "sort p = p" by (simp add: sorted_sort_id)
  with perm show ?thesis by (simp add: is_permutation_of_range_def)
qed

lemma permutation_of_range_mset:
  assumes "mset p = mset [0 ..< n]"
  shows "is_permutation_of_range p n"
proof -
  have "sorted [0 ..< n]" by simp
  with assms [symmetric] have "sort p = [0 ..< n]" by (metis properties_for_sort)
  then show ?thesis by (simp add: is_permutation_of_range_def)
qed

lemma argsort_is_ok: "argsort_ok a (argsort tiebreak a)"
proof -
  have "mset (argsort tiebreak a) = mset [0 ..< length a]"
    unfolding argsort_def by (simp only: mset_sort)
  then have "is_permutation_of_range (argsort tiebreak a) (length a)"
    by (rule permutation_of_range_mset)
  moreover have "sorted (map (\<lambda>i. a ! i) (argsort tiebreak a))"
    unfolding argsort_def by (rule sorted_sort_key)
  ultimately show ?thesis by (simp add: argsort_ok_def)
qed

lemma map_const_replicate: "\<forall>x \<in> set xs. f x = c \<Longrightarrow> map f xs = replicate (length xs) c"
  by (induction xs) auto

lemma numbers_of_positions:
  "map (\<lambda>i. the (items ! i)) (filter (\<lambda>i. items ! i \<noteq> None) [0 ..< length items]) =
     numbers_of items"
proof -
  have "filter (\<lambda>x. x \<noteq> None) (map (\<lambda>i. items ! i) [0 ..< length items]) =
        map (\<lambda>i. items ! i) (filter (\<lambda>i. items ! i \<noteq> None) [0 ..< length items])"
    by (simp add: filter_map comp_def)
  then have "numbers_of items =
        map the (map (\<lambda>i. items ! i) (filter (\<lambda>i. items ! i \<noteq> None) [0 ..< length items]))"
    by (simp add: numbers_of_def map_nth)
  then show ?thesis by (simp add: comp_def)
qed

lemma nan_positions_length:
  "length (filter (\<lambda>i. items ! i = None) [0 ..< length items]) =
     length (filter (\<lambda>x. x = None) items)"
proof -
  have "filter (\<lambda>x. x = None) (map (\<lambda>i. items ! i) [0 ..< length items]) =
        map (\<lambda>i. items ! i) (filter (\<lambda>i. items ! i = None) [0 ..< length items])"
    by (simp add: filter_map comp_def)
  then have "length (filter (\<lambda>x. x = None) (map (\<lambda>i. items ! i) [0 ..< length items])) =
        length (filter (\<lambda>i. items ! i = None) [0 ..< length items])" by simp
  then show ?thesis by (simp add: map_nth)
qed

lemma filter_split_mset:
  "mset (filter (\<lambda>i. f i \<noteq> c) xs) + mset (filter (\<lambda>i. f i = c) xs) = mset xs"
  by (induction xs) auto

lemma nargsort_facts:
  shows "is_permutation_of_range (nargsort tiebreak items) (length items)"
    and "map (\<lambda>i. items ! i) (nargsort tiebreak items) =
           map Some (sort (numbers_of items)) @
           replicate (length (filter (\<lambda>x. x = None) items)) None"
proof -
  let ?idx = "[0 ..< length items]"
  let ?nn = "filter (\<lambda>i. items ! i \<noteq> None) ?idx"
  let ?nan = "filter (\<lambda>i. items ! i = None) ?idx"
  let ?vals = "map (\<lambda>i. the (items ! i)) ?nn"
  let ?p = "argsort tiebreak ?vals"
  have n: "nargsort tiebreak items = map (\<lambda>j. ?nn ! j) ?p @ ?nan"
    by (simp add: nargsort_def Let_def)
  have ok: "argsort_ok ?vals ?p" by (rule argsort_is_ok)
  then have perm: "is_permutation_of_range ?p (length ?nn)" by (simp add: argsort_ok_def)
  note f = perm_range_facts [OF perm]
  have "mset (map (\<lambda>j. ?nn ! j) ?p) = mset ?nn" by (rule map_nth_perm [OF perm])
  moreover have "mset ?nn + mset ?nan = mset ?idx"
    by (rule filter_split_mset)
  ultimately have "mset (nargsort tiebreak items) = mset ?idx" by (simp only: n mset_append)
  then show "is_permutation_of_range (nargsort tiebreak items) (length items)"
    by (rule permutation_of_range_mset)
  have "items ! (?nn ! j) = Some (?vals ! j)" if "j \<in> set ?p" for j
  proof -
    from that f(3) have j: "j < length ?nn" by simp
    then have "?nn ! j \<in> set ?nn" by (rule nth_mem)
    then have "items ! (?nn ! j) \<noteq> None" by simp
    with j show ?thesis by (simp del: upt_Suc)
  qed
  then have "map (\<lambda>i. items ! i) (map (\<lambda>j. ?nn ! j) ?p) = map Some (map (\<lambda>j. ?vals ! j) ?p)"
    by (simp add: comp_def del: upt_Suc)
  also have "\<dots> = map Some (sort ?vals)" by (simp only: argsort_ok_sorts [OF ok])
  also have "\<dots> = map Some (sort (numbers_of items))" by (simp only: numbers_of_positions)
  finally have a: "map (\<lambda>i. items ! i) (map (\<lambda>j. ?nn ! j) ?p) = map Some (sort (numbers_of items))" .
  have "map (\<lambda>i. items ! i) ?nan = replicate (length ?nan) None"
    by (rule map_const_replicate) simp
  then have b: "map (\<lambda>i. items ! i) ?nan =
      replicate (length (filter (\<lambda>x. x = None) items)) None"
    by (simp only: nan_positions_length)
  show "map (\<lambda>i. items ! i) (nargsort tiebreak items) =
           map Some (sort (numbers_of items)) @
           replicate (length (filter (\<lambda>x. x = None) items)) None"
    unfolding n map_append a b ..
qed

lemma nargsort_numbers: "nargsort tiebreak (map Some keys) = argsort tiebreak keys"
proof -
  let ?items = "map Some keys"
  let ?idx = "[0 ..< length ?items]"
  have nn: "filter (\<lambda>i. ?items ! i \<noteq> None) ?idx = [0 ..< length keys]"
    by (induction keys rule: rev_induct) (auto simp: nth_append)
  have nan: "filter (\<lambda>i. ?items ! i = None) ?idx = []"
    by (auto simp: filter_empty_conv)
  have vals: "map (\<lambda>i. the (?items ! i)) [0 ..< length keys] = keys"
    by (rule nth_equalityI) auto
  from argsort_is_ok [of keys tiebreak]
  have "set (argsort tiebreak keys) = {0 ..< length keys}"
    using perm_range_facts(3) by (simp add: argsort_ok_def)
  then have "map (\<lambda>j. [0 ..< length keys] ! j) (argsort tiebreak keys) = argsort tiebreak keys"
    by (intro map_idI) auto
  then show ?thesis
    unfolding nargsort_def Let_def nn nan vals by simp
qed

lemma biased_sel_rows:
  assumes "predictions df = Inr items"
  shows "biased_sel tiebreak df K = Inr (take K (map (\<lambda>i. df ! i) (nargsort tiebreak items)))"
proof -
  from assms obtain ks where g: "getitem_col df ''Predictions'' = Inr ks"
    and a: "as_floats ks = Inr items"
    by (auto simp: predictions_def split: sum.splits)
  from predictions_Inr(1) [OF assms] have len: "length items = length df" by simp
  from nargsort_facts(1) [of tiebreak items]
  have "is_permutation_of_range (nargsort tiebreak items) (length df)" by (simp only: len)
  from perm_range_facts(3) [OF this]
  have "take_idx df (nargsort tiebreak items) = Inr (map (\<lambda>i. df ! i) (nargsort tiebreak items))"
    by (auto simp: take_idx_def list_all_iff)
  then show ?thesis by (simp add: biased_sel_def sort_values_def g a)
qed

lemma selection_general:
  assumes "predictions df = Inr items"
  shows "\<exists>sel. biased_sel tiebreak df K = Inr sel \<and>
         length sel = min K (length df) \<and>
         mset sel \<subseteq># mset df \<and>
         predictions sel =
           Inr (take K (map Some (sort (numbers_of items)) @
                        replicate (length (filter (\<lambda>x. x = None) items)) None))"
proof -
  let ?p = "nargsort tiebreak items"
  let ?sel = "take K (map (\<lambda>i. df ! i) ?p)"
  note pi = predictions_Inr [OF assms]
  from pi(1) have len: "length items = length df" by simp
  from nargsort_facts(1) [of tiebreak items]
  have perm: "is_permutation_of_range ?p (length df)" by (simp only: len)
  note f = perm_range_facts [OF perm]
  have b: "biased_sel tiebreak df K = Inr ?sel" by (rule biased_sel_rows [OF assms])
  have l: "length ?sel = min K (length df)" using f(2) by simp
  have sub: "set ?sel \<subseteq> set df"
  proof -
    have "set ?sel \<subseteq> set (map (\<lambda>i. df ! i) ?p)" by (rule set_take_subset)
    also have "\<dots> \<subseteq> set df" using f(3) by auto
    finally show ?thesis .
  qed
  have "map pred_item (map (\<lambda>i. df ! i) ?p) = map (\<lambda>i. items ! i) ?p"
    using f(3) by (auto simp: pi(1))
  also have "\<dots> = map Some (sort (numbers_of items)) @
           replicate (length (filter (\<lambda>x. x = None) items)) None"
    by (rule nargsort_facts(2))
  finally have "take K (map pred_item (map (\<lambda>i. df ! i) ?p)) =
      take K (map Some (sort (numbers_of items)) @
           replicate (length (filter (\<lambda>x. x = None) items)) None)"
    by (rule arg_cong)
  then have "map pred_item ?sel =
      take K (map Some (sort (numbers_of items)) @
           replicate (length (filter (\<lambda>x. x = None) items)) None)"
    by (simp only: take_map)
  moreover from sub pi(2) have "predictions ?sel = Inr (map pred_item ?sel)"
    by (intro predictions_total) blast
  ultimately have p: "predictions ?sel =
      Inr (take K (map Some (sort (numbers_of items)) @
           replicate (length (filter (\<lambda>x. x = None) items)) None))" by simp
  have "mset ?sel \<subseteq># mset (map (\<lambda>i. df ! i) ?p)" by (rule mset_take_subset)
  with map_nth_perm [OF perm] have m: "mset ?sel \<subseteq># mset df" by simp
  from b l p m show ?thesis by blast
qed

lemma numbers_of_Some: "numbers_of (map Some keys) = keys"
  by (induction keys) (auto simp: numbers_of_def)

lemma no_None_in_Some: "filter (\<lambda>x. x = None) (map Some keys) = []"
  by (induction keys) auto

text \<open>
  C1, as the sort is written. For every database with a float column
  \<^verbatim>\<open>Predictions\<close>, every \<open>K\<close> and every order the sort leaves equal keys in,
  \<^verbatim>\<open>sort_values(by=['Predictions'], ascending=True)[:K]\<close> returns \<open>min K |D|\<close> rows of the
  database, and their predicted scores are the first \<open>K\<close> of the database's in ascending
  order, NaN last: where no predicted score is NaN, the rows are in ascending order of
  predicted score and their scores are the \<open>K\<close> smallest. Nothing is said of the relative
  order of rows with equal predicted scores: the statement asks for no stable sort. On the
  scenario database of the nine predicted scores -9, ..., -1, whatever the sort does with
  ties, \<open>K = 3\<close> returns the first three rows, whose predicted scores are -9, -8, -7.
\<close>

theorem selection_is_sorted_prefix:
  "(predictions df = Inr items \<longrightarrow>
      (\<exists>sel. biased_sel tiebreak df K = Inr sel \<and>
         length sel = min K (length df) \<and>
         mset sel \<subseteq># mset df \<and>
         predictions sel =
           Inr (take K (map Some (sort (numbers_of items)) @
                        replicate (length (filter (\<lambda>x. x = None) items)) None)))) \<and>
   (predictions df = Inr (map Some keys) \<longrightarrow>
      (\<exists>sel. biased_sel tiebreak df K = Inr sel \<and>
         length sel = min K (length df) \<and>
         mset sel \<subseteq># mset df \<and>
         predictions sel = Inr (map Some (take K (sort keys))) \<and>
         sorted (take K (sort keys)))) \<and>
   biased_sel tiebreak scenario_scored 3 = Inr (take 3 scenario_scored) \<and>
   predictions scenario_scored = Inr (map Some [-9, -8, -7, -6, -5, -4, -3, -2, -1]) \<and>
   predictions (take 3 scenario_scored) = Inr (map Some [-9, -8, -7])"
proof (intro conjI impI)
  assume "predictions df = Inr items"
  then show "\<exists>sel. biased_sel tiebreak df K = Inr sel \<and>
         length sel = min K (length df) \<and>
         mset sel \<subseteq># mset df \<and>
         predictions sel =
           Inr (take K (map Some (sort (numbers_of items)) @
                        replicate (length (filter (\<lambda>x. x = None) items)) None))"
    by (rule selection_general)
next
  assume a: "predictions df = Inr (map Some keys)"
  from selection_general [OF a, of tiebreak K] obtain sel
    where s: "biased_sel tiebreak df K = Inr sel" "length sel = min K (length df)"
      "mset sel \<subseteq># mset df"
      and p: "predictions sel =
           Inr (take K (map Some (sort (numbers_of (map Some keys))) @
                        replicate (length (filter (\<lambda>x. x = None) (map Some keys))) None))"
    by blast
  from p have "predictions sel = Inr (map Some (take K (sort keys)))"
    by (simp add: numbers_of_Some no_None_in_Some take_map)
  moreover have "sorted (take K (sort keys))" by (simp add: sorted_wrt_take)
  ultimately show "\<exists>sel. biased_sel tiebreak df K = Inr sel \<and>
         length sel = min K (length df) \<and>
         mset sel \<subseteq># mset df \<and>
         predictions sel = Inr (map Some (take K (sort keys))) \<and>
         sorted (take K (sort keys))"
    using s by blast
next
  let ?keys = "[-9, -8, -7, -6, -5, -4, -3, -2, -1] :: rat list"
  have p: "predictions scenario_scored = Inr (map Some ?keys)" by code_simp
  have "sorted_wrt (<) ?keys" by simp
  from argsort_ok_distinct_keys [OF this argsort_is_ok]
  have e: "argsort tiebreak ?keys = [0 ..< length ?keys]" .
  have "biased_sel tiebreak scenario_scored 3 =
          Inr (take 3 (map (\<lambda>i. scenario_scored ! i) (nargsort tiebreak (map Some ?keys))))"
    by (rule biased_sel_rows [OF p])
  also have "\<dots> = Inr (take 3 (map (\<lambda>i. scenario_scored ! i) [0 ..< length ?keys]))"
    by (simp only: nargsort_numbers e)
  also have "take 3 (map (\<lambda>i. scenario_scored ! i) [0 ..< length ?keys]) = take 3 scenario_scored"
    by code_simp
  finally show "biased_sel tiebreak scenario_scored 3 = Inr (take 3 scenario_scored)" .
next
  show "predictions scenario_scored = Inr (map Some [-9, -8, -7, -6, -5, -4, -3, -2, -1])"
    by code_simp
  show "predictions (take 3 scenario_scored) = Inr (map Some [-9, -8, -7])" by code_simp
qed

theorem selection_witness:
  "biased_sel earlier_first scenario_scored 3 = Inr (take 3 scenario_scored) \<and>
   predictions (take 3 scenario_scored) = Inr (map Some [-9, -8, -7]) \<and>
   predictions tied_db = Inr (map Some [2, 1, 0, 0]) \<and>
   (\<exists>sel. biased_sel later_first tied_db 3 = Inr sel \<and> length sel = 3 \<and>
      predictions sel = Inr (map Some [0, 0, 1]))"
proof -
  note t = selection_is_sorted_prefix [of scenario_scored "[]" earlier_first 3 "[]"]
  from t have 1: "biased_sel earlier_first scenario_scored 3 = Inr (take 3 scenario_scored)"
    by blast
  from t have 2: "predictions (take 3 scenario_scored) = Inr (map Some [-9, -8, -7])" by blast
  have p: "predictions tied_db = Inr (map Some [2, 1, 0, 0])" by code_simp
  have len: "min 3 (length tied_db) = 3" by code_simp
  have srt: "take 3 (sort [2, 1, 0, 0 :: rat]) = [0, 0, 1]" by code_simp
  from selection_is_sorted_prefix [of tied_db "[]" later_first 3 "[2, 1, 0, 0]"] p
  obtain sel where "biased_sel later_first tied_db 3 = Inr sel"
    and "length sel = min 3 (length tied_db)"
    and "predictions sel = Inr (map Some (take 3 (sort [2, 1, 0, 0])))" by blast
  then have 3: "\<exists>sel. biased_sel later_first tied_db 3 = Inr sel \<and> length sel = 3 \<and>
      predictions sel = Inr (map Some [0, 0, 1])"
    by (simp only: len srt) blast
  from 1 2 p 3 show ?thesis by blast
qed

text \<open>The claim as stated fails on ties. In \<open>tied_db\<close> the predicted scores are 2, 1, 0, 0:
  the rows 2 and 3 are tied. A sort that leaves equal keys in descending order of
  position returns the positions 3, 2, 1, 0, and the selection of three is the rows
  3, 2 and 1: the tied rows are not in their original relative order, in which a stable
  sort selects the rows 2, 3 and 1.\<close>

theorem selection_ties_counterexample:
  "predictions tied_db = Inr (map Some [2, 1, 0, 0]) \<and>
   argsort later_first [2, 1, 0, 0] = [3, 2, 1, 0] \<and>
   map_sum id index_of (biased_sel later_first tied_db 3) = Inr [3, 2, 1] \<and>
   index_of (stable_selection tied_db 3) = [2, 3, 1] \<and>
   biased_sel later_first tied_db 3 \<noteq> Inr (stable_selection tied_db 3)"
  by code_simp

section \<open>Train/test split\<close>

lemma validate_Inr:
  "validate_shuffle_split n r = Inr (a, b) \<Longrightarrow>
     sizes_ok r n \<and> b = n_test_of r n \<and> a = n - b \<and> 0 < a \<and> a + b = n"
  by (auto simp: validate_shuffle_split_def sizes_ok_def Let_def split: if_splits)

lemma validate_iff:
  "(\<exists>a b. validate_shuffle_split n r = Inr (a, b)) \<longleftrightarrow> sizes_ok r n"
  by (auto simp: validate_shuffle_split_def sizes_ok_def Let_def)

lemma validate_Inl:
  "validate_shuffle_split n r = Inl e \<Longrightarrow> e = ValueError"
  by (auto simp: validate_shuffle_split_def Let_def split: if_splits)

lemma partition_facts:
  assumes "mset (train @ test) = mset [0 ..< n]"
  shows "length train + length test = n" and "set train \<inter> set test = {}"
    and "set train \<union> set test = {0 ..< n}" and "distinct train" and "distinct test"
proof -
  from assms have "size (mset (train @ test)) = size (mset [0 ..< n])" by simp
  then show "length train + length test = n" by simp
  from assms have d: "distinct (train @ test)"
    by (metis distinct_upt mset_eq_imp_distinct_iff)
  then show "set train \<inter> set test = {}" and "distinct train" and "distinct test" by auto
  from assms have "set (train @ test) = set [0 ..< n]" by (rule mset_eq_setD)
  then show "set train \<union> set test = {0 ..< n}" by simp
qed

lemma shuffle_split_partition:
  assumes "shuffle_ok shuffle" and "shuffle_split shuffle n r = Inr (train, test)"
  shows "mset (train @ test) = mset [0 ..< n]"
proof -
  let ?perm = "shuffle 0 [0 ..< n]"
  from assms(2) obtain a b where v: "validate_shuffle_split n r = Inr (a, b)"
    and tr: "train = take a (drop b ?perm)" and te: "test = take b ?perm"
    by (auto simp: shuffle_split_def Let_def split: sum.splits)
  from assms(1) have m: "mset ?perm = mset [0 ..< n]"
    unfolding shuffle_ok_def by blast
  then have "size (mset ?perm) = size (mset [0 ..< n])" by simp
  then have len: "length ?perm = n" by simp
  from validate_Inr [OF v] have "a + b = n" by simp
  with len have "train = drop b ?perm" by (simp add: tr)
  with te have "mset (train @ test) = mset ?perm"
    by (metis append_take_drop_id mset_append union_commute)
  with m show ?thesis by simp
qed

lemma filter_classes_mset:
  "distinct cs \<Longrightarrow>
     mset (concat (map (\<lambda>c. filter (\<lambda>i. f i = c) xs) cs)) = mset (filter (\<lambda>i. f i \<in> set cs) xs)"
proof (induction cs)
  case Nil
  show ?case by simp
next
  case (Cons c cs)
  have "mset (filter (\<lambda>i. f i = c) xs) + mset (filter (\<lambda>i. f i \<in> set cs) xs) =
        mset (filter (\<lambda>i. f i \<in> set (c # cs)) xs)"
    using Cons.prems by (induction xs) auto
  with Cons show ?case by simp
qed

lemma class_indices_mset:
  "mset (concat (map (\<lambda>c. filter (\<lambda>i. y ! i = c) [0 ..< length y]) (sort (remdups y)))) =
     mset [0 ..< length y]"
proof -
  have "filter (\<lambda>i. y ! i \<in> set (sort (remdups y))) [0 ..< length y] = [0 ..< length y]"
    by (rule filter_True) simp
  moreover have "distinct (sort (remdups y))" by simp
  ultimately show ?thesis by (simp add: filter_classes_mset)
qed

lemma length_class_indices:
  "length (filter (\<lambda>i. y ! i = c) [0 ..< length y]) = count_list y c"
proof -
  have "count_list xs c = length (filter (\<lambda>x. x = c) xs)" for xs :: "'a list"
    by (induction xs) auto
  then have "count_list y c = length (filter (\<lambda>x. x = c) (map (\<lambda>i. y ! i) [0 ..< length y]))"
    by (simp add: map_nth)
  also have "\<dots> = length (filter (\<lambda>i. y ! i = c) [0 ..< length y])"
    by (simp add: filter_map comp_def)
  finally show ?thesis by simp
qed

lemma sum_class_counts: "sum_list (class_counts_of y) = length y"
proof -
  have "sum_list (class_counts_of y) = sum (count_list y) (set (sort (remdups y)))"
    unfolding class_counts_of_def by (rule sum_list_distinct_conv_sum_set) simp
  also have "\<dots> = length y" by (simp add: sum_count_set)
  finally show ?thesis .
qed

lemma list_all2_le_sum:
  "list_all2 (\<le>) as bs \<Longrightarrow> sum_list as \<le> sum_list (bs :: nat list)"
  by (induction rule: list_all2_induct) auto

lemma list_all2_le_sum_eq:
  "list_all2 (\<le>) as bs \<Longrightarrow> sum_list as = sum_list bs \<Longrightarrow> as = (bs :: nat list)"
proof (induction rule: list_all2_induct)
  case Nil
  show ?case by simp
next
  case (Cons a as b bs)
  from Cons.hyps(2) have "sum_list as \<le> sum_list bs" by (rule list_all2_le_sum)
  with Cons show ?case by auto
qed

lemma shares_exhaust_classes:
  assumes "mode_ok counts a ns" and "mode_ok (map (\<lambda>(c, n). c - n) (zip counts ns)) b ts"
    and "sum_list counts = a + b"
  shows "length ns = length counts \<and> length ts = length counts \<and>
         map (\<lambda>(n, t). n + t) (zip ns ts) = counts"
proof -
  from assms(1) have ln: "length ns = length counts" and sn: "sum_list ns = a"
    and le: "list_all2 (\<le>) ns counts"
    by (auto simp: mode_ok_def list_all2_iff list_all_iff)
  from assms(2) ln have lt: "length ts = length counts" and st: "sum_list ts = b"
    and le': "list_all2 (\<le>) ts (map (\<lambda>(c, n). c - n) (zip counts ns))"
    by (auto simp: mode_ok_def list_all2_iff list_all_iff)
  have "ns ! i + ts ! i \<le> counts ! i" if "i < length counts" for i
  proof -
    from le that ln have "ns ! i \<le> counts ! i" by (simp add: list_all2_conv_all_nth)
    moreover from le' that ln lt have "ts ! i \<le> counts ! i - ns ! i"
      by (simp add: list_all2_conv_all_nth)
    ultimately show ?thesis by arith
  qed
  then have "list_all2 (\<le>) (map (\<lambda>(n, t). n + t) (zip ns ts)) counts"
    using ln lt by (simp add: list_all2_conv_all_nth)
  moreover have "sum_list (map (\<lambda>(n, t). n + t) (zip ns ts)) = sum_list ns + sum_list ts"
    using ln lt
  proof (induction ns ts arbitrary: counts rule: list_induct2')
    case (4 n ns t ts)
    then obtain c cs where "counts = c # cs" by (cases counts) auto
    with 4 show ?case by auto
  qed auto
  ultimately have "map (\<lambda>(n, t). n + t) (zip ns ts) = counts"
    using sn st assms(3) by (intro list_all2_le_sum_eq) auto
  with ln lt show ?thesis by simp
qed

lemma per_class_partition:
  assumes "shuffle_ok shuffle" and "length ns = length cls" and "length ts = length cls"
    and "map (\<lambda>(n, t). n + t) (zip ns ts) = map length cls"
    and "per_class shuffle k cls ns ts = (train, test)"
  shows "mset (train @ test) = mset (concat cls)"
  using assms
proof (induction shuffle k cls ns ts arbitrary: train test rule: per_class.induct)
  case (1 shuffle k ci cls n ns t ts)
  let ?perm = "shuffle k [0 ..< length ci]"
  let ?pi = "map (\<lambda>j. ci ! min j (length ci - 1)) ?perm"
  obtain tr te where rec: "per_class shuffle (Suc k) cls ns ts = (tr, te)" by force
  from "1.prems"(2-4) have l: "length ns = length cls" "length ts = length cls"
    and nt: "n + t = length ci" and m: "map (\<lambda>(n, t). n + t) (zip ns ts) = map length cls"
    by simp_all
  from "1.IH" [OF refl refl "1.prems"(1) l m rec] have ih: "mset (tr @ te) = mset (concat cls)" .
  from "1.prems"(1) have mp: "mset ?perm = mset [0 ..< length ci]"
    unfolding shuffle_ok_def by blast
  then have "set ?perm = set [0 ..< length ci]" by (rule mset_eq_setD)
  then have e: "?pi = map (\<lambda>j. ci ! j) ?perm" by (auto simp: min_def)
  have "mset ?pi = mset (map (\<lambda>j. ci ! j) ?perm)" by (simp only: e)
  also have "\<dots> = image_mset (\<lambda>j. ci ! j) (mset ?perm)" by simp
  also have "\<dots> = mset (map (\<lambda>j. ci ! j) [0 ..< length ci])" by (simp add: mp)
  also have "\<dots> = mset ci" by (simp add: map_nth)
  finally have mpi: "mset ?pi = mset ci" .
  then have "size (mset ?pi) = size (mset ci)" by simp
  then have "length ?pi = n + t" using nt by simp
  then have td: "take t (drop n ?pi) = drop n ?pi" by simp
  have "mset (take n ?pi) + mset (drop n ?pi) = mset ?pi"
    by (metis append_take_drop_id mset_append)
  with mpi have cut: "mset (take n ?pi) + mset (take t (drop n ?pi)) = mset ci"
    by (simp only: td)
  from "1.prems"(5) rec have tt: "train = take n ?pi @ tr" "test = take t (drop n ?pi) @ te"
    by (simp_all add: Let_def)
  have "mset (train @ test) =
          (mset (take n ?pi) + mset (take t (drop n ?pi))) + mset (tr @ te)"
    unfolding tt by (simp only: mset_append ac_simps)
  with ih cut show ?case by simp
qed simp_all

lemma stratified_partition:
  assumes "shuffle_ok shuffle"
    and "stratified_shuffle_split shuffle am y r = Inr (train, test)"
    and "strata_ok am y (length y - n_test_of r (length y)) (n_test_of r (length y))"
  shows "mset (train @ test) = mset [0 ..< length y]"
proof -
  let ?classes = "sort (remdups y)"
  let ?counts = "class_counts_of y"
  let ?ci = "map (\<lambda>c. filter (\<lambda>i. y ! i = c) [0 ..< length y]) ?classes"
  from assms(2) obtain a b where v: "validate_shuffle_split (length y) r = Inr (a, b)"
    by (auto simp: stratified_shuffle_split_def split: sum.splits)
  let ?ni = "am 0 ?counts a"
  let ?rem = "map (\<lambda>(c, n). c - n) (zip ?counts ?ni)"
  let ?ti = "am 1 ?rem b"
  obtain tr te where pc: "per_class shuffle 0 ?ci ?ni ?ti = (tr, te)" by force
  from assms(2) v pc have tt: "train = shuffle (length ?classes) tr"
    "test = shuffle (Suc (length ?classes)) te"
    by (auto simp: stratified_shuffle_split_def Let_def class_counts_of_def split: if_splits)
  note va = validate_Inr [OF v]
  from va assms(3) have m1: "mode_ok ?counts a ?ni" and m2: "mode_ok ?rem b ?ti"
    by (simp_all add: strata_ok_def)
  from va have "sum_list ?counts = a + b" by (simp add: sum_class_counts)
  from shares_exhaust_classes [OF m1 m2 this]
  have ln: "length ?ni = length ?counts" and lt: "length ?ti = length ?counts"
    and ex: "map (\<lambda>(n, t). n + t) (zip ?ni ?ti) = ?counts" by blast+
  have lc: "map length ?ci = ?counts"
    by (simp add: class_counts_of_def length_class_indices comp_def)
  have lci: "length ?ci = length ?counts" by (simp add: class_counts_of_def)
  from per_class_partition [OF assms(1) _ _ _ pc] ln lt ex lc lci
  have "mset (tr @ te) = mset (concat ?ci)" by simp
  also have "\<dots> = mset [0 ..< length y]" by (rule class_indices_mset)
  finally have p: "mset (tr @ te) = mset [0 ..< length y]" .
  from assms(1) tt have "mset train = mset tr" and "mset test = mset te"
    unfolding shuffle_ok_def by blast+
  then have "mset (train @ test) = mset (tr @ te)" by simp
  with p show ?thesis by simp
qed

lemma split_positions_partition:
  assumes "shuffle_ok shuffle"
    and "\<forall>labels. stratify = Some labels \<longrightarrow>
           strata_ok am labels (length labels - n_test_of r (length labels))
             (n_test_of r (length labels))"
    and "split_positions shuffle am n r stratify = Inr (train, test)"
  shows "mset (train @ test) = mset [0 ..< n]"
proof (cases stratify)
  case None
  with assms(3) have "shuffle_split shuffle n r = Inr (train, test)"
    by (simp add: split_positions_def)
  with assms(1) show ?thesis by (rule shuffle_split_partition)
next
  case (Some labels)
  with assms(3) have l: "length labels = n"
    and s: "stratified_shuffle_split shuffle am labels r = Inr (train, test)"
    by (auto simp: split_positions_def split: if_splits)
  from assms(2) Some have "strata_ok am labels (length labels - n_test_of r (length labels))
             (n_test_of r (length labels))" by blast
  from stratified_partition [OF assms(1) s this] l show ?thesis by simp
qed

lemma split_positions_valid:
  assumes "split_positions shuffle am n r stratify = Inr (train, test)"
  shows "sizes_ok r n"
proof -
  from assms have "\<exists>a b. validate_shuffle_split n r = Inr (a, b)"
    by (auto simp: split_positions_def shuffle_split_def stratified_shuffle_split_def
        split: option.splits sum.splits if_splits)
  then show ?thesis using validate_iff [of n r] by blast
qed

lemma split_positions_invalid:
  assumes "\<not> sizes_ok r n"
  shows "split_positions shuffle am n r stratify = Inl ValueError"
proof -
  from assms have "\<not> (\<exists>a b. validate_shuffle_split n r = Inr (a, b))"
    using validate_iff [of n r] by blast
  then obtain e where "validate_shuffle_split n r = Inl e"
    by (cases "validate_shuffle_split n r") auto
  with validate_Inl have v: "validate_shuffle_split n r = Inl ValueError" by blast
  show ?thesis
    by (cases stratify)
       (auto simp: split_positions_def shuffle_split_def stratified_shuffle_split_def v)
qed

lemma take_idx_Inr:
  "take_idx xs idx = Inr zs \<longleftrightarrow> set idx \<subseteq> {0 ..< length xs} \<and> zs = map (\<lambda>i. xs ! i) idx"
  by (auto simp: take_idx_def list_all_iff)

lemma train_test_split_Inr:
  assumes "train_test_split shuffle am X y r stratify = Inr (X_train, X_test, y_train, y_test)"
  shows "length X = length y \<and>
     (\<exists>train test. split_positions shuffle am (length X) r stratify = Inr (train, test) \<and>
        X_train = map (\<lambda>i. X ! i) train \<and> X_test = map (\<lambda>i. X ! i) test \<and>
        y_train = map (\<lambda>i. y ! i) train \<and> y_test = map (\<lambda>i. y ! i) test)"
proof -
  from assms have l: "length X = length y"
    by (auto simp: train_test_split_def split: if_splits)
  with assms obtain train test
    where sp: "split_positions shuffle am (length X) r stratify = Inr (train, test)"
      and c: "(case (take_idx X train, take_idx X test, take_idx y train, take_idx y test) of
                (Inr X_train, Inr X_test, Inr y_train, Inr y_test) \<Rightarrow>
                  Inr (X_train, X_test, y_train, y_test)
              | _ \<Rightarrow> Inl IndexError) = (Inr (X_train, X_test, y_train, y_test)
                    :: pyerror + ('a list \<times> 'a list \<times> 'b list \<times> 'b list))"
    by (auto simp: train_test_split_def split: sum.splits)
  from c have "take_idx X train = Inr X_train" "take_idx X test = Inr X_test"
    "take_idx y train = Inr y_train" "take_idx y test = Inr y_test"
    by (auto split: sum.splits)
  then have "X_train = map (\<lambda>i. X ! i) train \<and> X_test = map (\<lambda>i. X ! i) test \<and>
        y_train = map (\<lambda>i. y ! i) train \<and> y_test = map (\<lambda>i. y ! i) test"
    by (simp add: take_idx_Inr)
  with l sp show ?thesis by blast
qed

lemma train_test_split_total:
  assumes "length X = length y"
    and "split_positions shuffle am (length X) r stratify = Inr (train, test)"
    and "mset (train @ test) = mset [0 ..< length X]"
  shows "train_test_split shuffle am X y r stratify =
     Inr (map (\<lambda>i. X ! i) train, map (\<lambda>i. X ! i) test, map (\<lambda>i. y ! i) train, map (\<lambda>i. y ! i) test)"
proof -
  from partition_facts(3) [OF assms(3)]
  have "set train \<subseteq> {0 ..< length X}" and "set test \<subseteq> {0 ..< length X}" by auto
  with assms(1) have "take_idx X train = Inr (map (\<lambda>i. X ! i) train)"
    "take_idx X test = Inr (map (\<lambda>i. X ! i) test)"
    "take_idx y train = Inr (map (\<lambda>i. y ! i) train)"
    "take_idx y test = Inr (map (\<lambda>i. y ! i) test)"
    by (simp_all add: take_idx_Inr)
  with assms(1,2) show ?thesis by (simp add: train_test_split_def)
qed

lemma mset_map_partition:
  assumes "mset (train @ test) = mset [0 ..< length xs]"
  shows "mset (map (\<lambda>i. xs ! i) train @ map (\<lambda>i. xs ! i) test) = mset xs"
proof -
  have "mset (map (\<lambda>i. xs ! i) train @ map (\<lambda>i. xs ! i) test) =
        image_mset (\<lambda>i. xs ! i) (mset (train @ test))" by simp
  also have "\<dots> = image_mset (\<lambda>i. xs ! i) (mset [0 ..< length xs])" by (simp only: assms)
  also have "\<dots> = mset (map (\<lambda>i. xs ! i) [0 ..< length xs])" by simp
  also have "\<dots> = mset xs" by (simp add: map_nth)
  finally show ?thesis .
qed

lemma shuffle_split_total:
  assumes "sizes_ok r n"
  shows "\<exists>train test. shuffle_split shuffle n r = Inr (train, test)"
proof -
  from assms have "\<exists>a b. validate_shuffle_split n r = Inr (a, b)"
    using validate_iff [of n r] by blast
  then show ?thesis by (auto simp: shuffle_split_def Let_def)
qed

lemma stratified_total:
  assumes "sizes_ok r (length y)"
    and "\<not> list_ex (\<lambda>c. c < 2) (class_counts_of y)"
    and "length (class_counts_of y) \<le> length y - n_test_of r (length y)"
    and "length (class_counts_of y) \<le> n_test_of r (length y)"
  shows "\<exists>train test. stratified_shuffle_split shuffle am y r = Inr (train, test)"
proof -
  from assms(1) obtain a b where v: "validate_shuffle_split (length y) r = Inr (a, b)"
    using validate_iff [of "length y" r] by auto
  from validate_Inr [OF v] assms(3,4)
  have "\<not> a < length (sort (remdups y))" "\<not> b < length (sort (remdups y))"
    by (simp_all add: class_counts_of_def)
  with assms(2) show ?thesis
    by (auto simp: stratified_shuffle_split_def v Let_def class_counts_of_def split: prod.splits)
qed

lemma stratified_fails:
  assumes "list_ex (\<lambda>c. c < 2) (class_counts_of y) \<or>
           length y - n_test_of r (length y) < length (class_counts_of y) \<or>
           n_test_of r (length y) < length (class_counts_of y)"
  shows "stratified_shuffle_split shuffle am y r = Inl ValueError"
proof (cases "validate_shuffle_split (length y) r")
  case (Inl e)
  with validate_Inl have "validate_shuffle_split (length y) r = Inl ValueError" by blast
  then show ?thesis by (simp add: stratified_shuffle_split_def)
next
  case (Inr ab)
  obtain a b where ab: "ab = (a, b)" by (cases ab)
  with Inr have v: "validate_shuffle_split (length y) r = Inr (a, b)" by simp
  from validate_Inr [OF v] have "b = n_test_of r (length y)" "a = length y - b" by simp_all
  with assms have "list_ex (\<lambda>c. c < 2) (map (\<lambda>c. count_list y c) (sort (remdups y))) \<or>
      a < length (sort (remdups y)) \<or> b < length (sort (remdups y))"
    by (simp add: class_counts_of_def)
  then show ?thesis
    by (auto simp: stratified_shuffle_split_def v Let_def)
qed

text \<open>
  C3, as the library behaves. \<^verbatim>\<open>train_test_split\<close> returns only when the sizes pass its
  validation: the split ratio, as a double, is in (0,1), and the test size, the ceiling of
  the double product of ratio and \<open>|D|\<close>, is below \<open>|D|\<close>, so that the training set is not
  empty; otherwise it raises ValueError. When it returns, with or without stratification,
  the two subsets are the records at two lists of positions of the database that have no
  position in common, repeat none, and together are all positions: the sizes sum to
  \<open>|D|\<close> and the union is the source, as positions and as records with multiplicity.
  Without stratification it does return whenever the sizes pass. With stratification it
  raises ValueError when a class has fewer than two members, when the training set is
  smaller than the number of classes and when the test set is, and it returns when the
  sizes pass and none of the three is the case. The generator's permutation draws and
  the shares per class enter as parameters with their contracts.
\<close>

theorem split_is_a_partition:
  "(shuffle_ok shuffle \<and>
    (\<forall>labels. stratify = Some labels \<longrightarrow>
       strata_ok approximate_mode labels (length labels - n_test_of r (length labels))
         (n_test_of r (length labels))) \<and>
    train_test_split shuffle approximate_mode X y r stratify =
      Inr (X_train, X_test, y_train, y_test) \<longrightarrow>
      sizes_ok r (length X) \<and>
      (\<exists>train test.
         split_positions shuffle approximate_mode (length X) r stratify = Inr (train, test) \<and>
         length train + length test = length X \<and>
         set train \<inter> set test = {} \<and>
         set train \<union> set test = {0 ..< length X} \<and>
         distinct train \<and> distinct test \<and>
         X_train = map (\<lambda>i. X ! i) train \<and> X_test = map (\<lambda>i. X ! i) test \<and>
         y_train = map (\<lambda>i. y ! i) train \<and> y_test = map (\<lambda>i. y ! i) test) \<and>
      length X_train + length X_test = length X \<and>
      length y_train + length y_test = length y \<and>
      mset (X_train @ X_test) = mset X \<and>
      mset (y_train @ y_test) = mset y) \<and>
   (length X = length y \<and> sizes_ok r (length X) \<and>
    shuffle_ok shuffle \<longrightarrow>
      (\<exists>res. train_test_split shuffle approximate_mode X y r None = Inr res)) \<and>
   (length X = length y \<and> length labels = length X \<and>
    sizes_ok r (length X) \<and>
    \<not> list_ex (\<lambda>c. c < 2) (class_counts_of labels) \<and>
    length (class_counts_of labels) \<le> length X - n_test_of r (length X) \<and>
    length (class_counts_of labels) \<le> n_test_of r (length X) \<and>
    shuffle_ok shuffle \<and>
    strata_ok approximate_mode labels (length labels - n_test_of r (length labels))
      (n_test_of r (length labels)) \<longrightarrow>
      (\<exists>res. train_test_split shuffle approximate_mode X y r (Some labels) = Inr res)) \<and>
   (\<not> sizes_ok r (length X) \<longrightarrow>
      train_test_split shuffle approximate_mode X y r stratify = Inl ValueError) \<and>
   (list_ex (\<lambda>c. c < 2) (class_counts_of labels) \<or>
    length X - n_test_of r (length X) < length (class_counts_of labels) \<or>
    n_test_of r (length X) < length (class_counts_of labels) \<longrightarrow>
      train_test_split shuffle approximate_mode X y r (Some labels) = Inl ValueError)"
proof (intro conjI impI)
  assume a: "shuffle_ok shuffle \<and>
    (\<forall>labels. stratify = Some labels \<longrightarrow>
       strata_ok approximate_mode labels (length labels - n_test_of r (length labels))
         (n_test_of r (length labels))) \<and>
    train_test_split shuffle approximate_mode X y r stratify =
      Inr (X_train, X_test, y_train, y_test)"
  then have tts: "train_test_split shuffle approximate_mode X y r stratify =
      Inr (X_train, X_test, y_train, y_test)" by blast
  from train_test_split_Inr [OF tts] obtain train test
    where l: "length X = length y"
      and sp: "split_positions shuffle approximate_mode (length X) r stratify = Inr (train, test)"
      and eqs: "X_train = map (\<lambda>i. X ! i) train" "X_test = map (\<lambda>i. X ! i) test"
        "y_train = map (\<lambda>i. y ! i) train" "y_test = map (\<lambda>i. y ! i) test"
    by blast
  from a sp have p: "mset (train @ test) = mset [0 ..< length X]"
    using split_positions_partition by blast
  note f = partition_facts [OF p]
  from split_positions_valid [OF sp]
  show "sizes_ok r (length X)" .
  show "\<exists>train test.
         split_positions shuffle approximate_mode (length X) r stratify = Inr (train, test) \<and>
         length train + length test = length X \<and>
         set train \<inter> set test = {} \<and>
         set train \<union> set test = {0 ..< length X} \<and>
         distinct train \<and> distinct test \<and>
         X_train = map (\<lambda>i. X ! i) train \<and> X_test = map (\<lambda>i. X ! i) test \<and>
         y_train = map (\<lambda>i. y ! i) train \<and> y_test = map (\<lambda>i. y ! i) test"
    using sp f eqs by blast
  show "length X_train + length X_test = length X" using f(1) by (simp add: eqs)
  show "length y_train + length y_test = length y" using f(1) l by (simp add: eqs)
  show "mset (X_train @ X_test) = mset X"
    unfolding eqs by (rule mset_map_partition [OF p])
  from p l have "mset (train @ test) = mset [0 ..< length y]" by simp
  then show "mset (y_train @ y_test) = mset y"
    unfolding eqs by (rule mset_map_partition)
next
  assume a: "length X = length y \<and> sizes_ok r (length X) \<and>
    shuffle_ok shuffle"
  then obtain train test where s: "shuffle_split shuffle (length X) r = Inr (train, test)"
    using shuffle_split_total [of r "length X" shuffle] by blast
  then have sp: "split_positions shuffle approximate_mode (length X) r None = Inr (train, test)"
    by (simp add: split_positions_def)
  from a s have "mset (train @ test) = mset [0 ..< length X]"
    using shuffle_split_partition by blast
  from train_test_split_total [OF _ sp this] a
  show "\<exists>res. train_test_split shuffle approximate_mode X y r None = Inr res" by blast
next
  assume a: "length X = length y \<and> length labels = length X \<and>
    sizes_ok r (length X) \<and>
    \<not> list_ex (\<lambda>c. c < 2) (class_counts_of labels) \<and>
    length (class_counts_of labels) \<le> length X - n_test_of r (length X) \<and>
    length (class_counts_of labels) \<le> n_test_of r (length X) \<and>
    shuffle_ok shuffle \<and>
    strata_ok approximate_mode labels (length labels - n_test_of r (length labels))
      (n_test_of r (length labels))"
  then have ll: "length labels = length X" by blast
  from a obtain train test
    where s: "stratified_shuffle_split shuffle approximate_mode labels r = Inr (train, test)"
    using stratified_total [of r labels shuffle approximate_mode] unfolding ll by blast
  with ll have sp: "split_positions shuffle approximate_mode (length X) r (Some labels) =
      Inr (train, test)"
    by (simp add: split_positions_def)
  from a s have "mset (train @ test) = mset [0 ..< length labels]"
    using stratified_partition by blast
  then have "mset (train @ test) = mset [0 ..< length X]" by (simp only: ll)
  from train_test_split_total [OF _ sp this] a
  show "\<exists>res. train_test_split shuffle approximate_mode X y r (Some labels) = Inr res" by blast
next
  assume "\<not> sizes_ok r (length X)"
  from split_positions_invalid [OF this]
  have sp: "split_positions shuffle approximate_mode (length X) r stratify = Inl ValueError" .
  show "train_test_split shuffle approximate_mode X y r stratify = Inl ValueError"
    unfolding train_test_split_def sp by simp
next
  assume a: "list_ex (\<lambda>c. c < 2) (class_counts_of labels) \<or>
    length X - n_test_of r (length X) < length (class_counts_of labels) \<or>
    n_test_of r (length X) < length (class_counts_of labels)"
  have "split_positions shuffle approximate_mode (length X) r (Some labels) = Inl ValueError"
  proof (cases "length labels = length X")
    case True
    with a stratified_fails [of labels r shuffle approximate_mode]
    show ?thesis by (simp add: split_positions_def)
  next
    case False
    then show ?thesis by (simp add: split_positions_def)
  qed
  then have sp: "split_positions shuffle approximate_mode (length X) r (Some labels) =
      Inl ValueError" .
  show "train_test_split shuffle approximate_mode X y r (Some labels) = Inl ValueError"
    unfolding train_test_split_def sp by simp
qed

theorem split_is_a_partition_witness:
  "train_test_split toy_shuffle toy_mode [0 ..< 10] scores10 (3/10) None =
     Inr ([6, 5, 4, 3, 2, 1, 0], [9, 8, 7], [-4, -5, -6, -7, -8, -9, -10], [-1, -2, -3]) \<and>
   train_test_split toy_shuffle toy_mode [0 ..< 10] labels10 (2/10) (Some labels10) =
     Inr ([1, 2, 4, 5, 6, 7, 8, 9], [0, 3],
          [True, True, False, False, False, False, False, False], [True, False]) \<and>
   mset ([6, 5, 4, 3, 2, 1, 0] @ [9, 8, 7]) = mset [0 ..< 10] \<and>
   mset ([1, 2, 4, 5, 6, 7, 8, 9] @ [0, 3]) = mset [0 ..< 10] \<and>
   n_test_of (28/100) 25 = 8 \<and>
   train_test_split toy_shuffle toy_mode [0 ..< 10] one_active (2/10) (Some one_active) =
     Inl ValueError \<and>
   train_test_split toy_shuffle toy_mode [0 ..< 4] two_each (7/10) (Some two_each) =
     Inl ValueError \<and>
   train_test_split toy_shuffle toy_mode [0 ..< 4] two_each (2/10) (Some two_each) =
     Inl ValueError"
proof -
  have ok: "shuffle_ok toy_shuffle" by (simp add: shuffle_ok_def toy_shuffle_def)
  have 1: "train_test_split toy_shuffle toy_mode [0 ..< 10] scores10 (3/10) None =
     Inr ([6, 5, 4, 3, 2, 1, 0], [9, 8, 7], [-4, -5, -6, -7, -8, -9, -10], [-1, -2, -3])"
    by code_simp
  have 2: "train_test_split toy_shuffle toy_mode [0 ..< 10] labels10 (2/10) (Some labels10) =
     Inr ([1, 2, 4, 5, 6, 7, 8, 9], [0, 3],
          [True, True, False, False, False, False, False, False], [True, False])"
    by code_simp
  have s: "strata_ok toy_mode labels10
         (length labels10 - n_test_of (2/10) (length labels10))
         (n_test_of (2/10) (length labels10))"
    by code_simp
  note t1 = split_is_a_partition [of toy_shuffle None toy_mode "3/10" "[0 ..< 10]" scores10
      "[6, 5, 4, 3, 2, 1, 0]" "[9, 8, 7]" "[-4, -5, -6, -7, -8, -9, -10]" "[-1, -2, -3]"]
  from t1 [THEN conjunct1] ok 1
  have 3: "mset ([6, 5, 4, 3, 2, 1, 0] @ [9, 8, 7]) = mset [0 ..< 10]" by blast
  note t2 = split_is_a_partition [of toy_shuffle "Some labels10" toy_mode "2/10" "[0 ..< 10]"
      labels10 "[1, 2, 4, 5, 6, 7, 8, 9]" "[0, 3]"
      "[True, True, False, False, False, False, False, False]" "[True, False]"]
  from t2 [THEN conjunct1] ok 2 s
  have 4: "mset ([1, 2, 4, 5, 6, 7, 8, 9] @ [0, 3]) = mset [0 ..< 10]" by blast
  have 5: "n_test_of (28/100) 25 = 8" by code_simp
  have c6: "list_ex (\<lambda>c. c < 2) (class_counts_of one_active)" by code_simp
  note t3 = split_is_a_partition [of toy_shuffle None toy_mode "2/10" "[0 ..< 10]" one_active
      "[]" "[]" "[]" "[]" one_active]
  from t3 [THEN conjunct2, THEN conjunct2, THEN conjunct2, THEN conjunct2] c6
  have 6: "train_test_split toy_shuffle toy_mode [0 ..< 10] one_active (2/10) (Some one_active) =
     Inl ValueError" by blast
  have c7: "length [0 ..< 4] - n_test_of (7/10) (length [0 ..< 4]) < length (class_counts_of two_each)"
    by code_simp
  note t4 = split_is_a_partition [of toy_shuffle None toy_mode "7/10" "[0 ..< 4]" two_each
      "[]" "[]" "[]" "[]" two_each]
  from t4 [THEN conjunct2, THEN conjunct2, THEN conjunct2, THEN conjunct2] c7
  have 7: "train_test_split toy_shuffle toy_mode [0 ..< 4] two_each (7/10) (Some two_each) =
     Inl ValueError" by blast
  have c8: "n_test_of (2/10) (length [0 ..< 4]) < length (class_counts_of two_each)"
    by code_simp
  note t5 = split_is_a_partition [of toy_shuffle None toy_mode "2/10" "[0 ..< 4]" two_each
      "[]" "[]" "[]" "[]" two_each]
  from t5 [THEN conjunct2, THEN conjunct2, THEN conjunct2, THEN conjunct2] c8
  have 8: "train_test_split toy_shuffle toy_mode [0 ..< 4] two_each (2/10) (Some two_each) =
     Inl ValueError" by blast
  from 1 2 3 4 5 6 7 8 show ?thesis by blast
qed

text \<open>The claim as stated fails on small databases: a database of one record cannot be
  split 70/30, and a database of two records, one of each class, cannot be split 80/20
  with stratification; both calls raise ValueError and produce no subsets. So does the
  stratified 80/20 split of ten records of which one only is active, for that class of
  one member alone: the sizes, 8 and 2, pass.\<close>

theorem split_small_database_counterexample:
  "train_test_split toy_shuffle toy_mode [0 ..< 1] [-5 :: rat] (3/10) None = Inl ValueError \<and>
   train_test_split toy_shuffle toy_mode [0 ..< 2] [True, False] (2/10) (Some [True, False]) =
     Inl ValueError \<and>
   train_test_split toy_shuffle toy_mode [0 ..< 10] one_active (2/10) (Some one_active) =
     Inl ValueError \<and>
   validate_shuffle_split 10 (2/10) = Inr (8, 2)"
  by code_simp

end
